theory Spec2Isabelle
  imports Main
begin

section \<open>JavaScript string primitives\<close>

text \<open>
  The repository is TypeScript. A JavaScript string is a sequence of UTF-16 code units
  and every index and length below counts code units. A code unit is modelled by a
  \<^typ>\<open>char\<close>, so the model covers the strings whose code units lie in 0..255;
  none of the functions below looks at a code unit other than to compare it with an
  ASCII character or to ask whether it is white space. Indices are \<^typ>\<open>int\<close>, as
  the source computes with them (subtraction may go below zero, and \<open>slice\<close> gives
  negative arguments a meaning of their own).
\<close>

definition slice :: "string \<Rightarrow> int \<Rightarrow> int \<Rightarrow> string" where
  \<comment> \<open>\<open>s.slice(a, b)\<close>: a negative index counts from the end, both are clamped to
      \<open>0..length\<close>, and an empty string results when the end is not after the start.\<close>
  "slice s a b =
     (let len = int (length s);
          from = (if a < 0 then max (len + a) 0 else min a len);
          to = (if b < 0 then max (len + b) 0 else min b len)
      in take (nat (to - from)) (drop (nat from) s))"

definition slice_from :: "string \<Rightarrow> int \<Rightarrow> string" where
  \<comment> \<open>\<open>s.slice(a)\<close>: the end defaults to the length.\<close>
  "slice_from s a = slice s a (int (length s))"

definition startsWith :: "string \<Rightarrow> string \<Rightarrow> bool" where
  "startsWith s p = (take (length p) s = p)"

definition endsWith :: "string \<Rightarrow> string \<Rightarrow> bool" where
  "endsWith s p = (length p \<le> length s \<and> drop (length s - length p) s = p)"

definition indexOf :: "string \<Rightarrow> char \<Rightarrow> int \<Rightarrow> int" where
  \<comment> \<open>\<open>s.indexOf(c, pos)\<close> for a one-character search string: the position is clamped
      to \<open>0..length\<close>; the result is the first index at or after it that holds \<open>c\<close>,
      or \<open>-1\<close>.\<close>
  "indexOf s c pos =
     (let k = nat (min (max pos 0) (int (length s)));
          rest = drop k s
      in if c \<in> set rest then int (k + length (takeWhile (\<lambda>x. x \<noteq> c) rest)) else - 1)"

definition lastIndexOf :: "string \<Rightarrow> char \<Rightarrow> int \<Rightarrow> int" where
  \<comment> \<open>\<open>s.lastIndexOf(c, pos)\<close> for a one-character search string: the position is
      clamped to \<open>0..length - 1\<close> (a negative position becomes \<open>0\<close>, it does not mean
      "nowhere"); the result is the last index at or before it that holds \<open>c\<close>, or
      \<open>-1\<close>.\<close>
  "lastIndexOf s c pos =
     (let k = min (max pos 0) (int (length s) - 1);
          pre = take (nat (k + 1)) s
      in if c \<in> set pre
         then int (length pre) - 1 - int (length (takeWhile (\<lambda>x. x \<noteq> c) (rev pre)))
         else - 1)"

definition isWhiteSpace :: "char \<Rightarrow> bool" where
  \<comment> \<open>White space and line terminators of ECMAScript among the code units 0..255:
      TAB, LF, VT, FF, CR, SP and NBSP.\<close>
  "isWhiteSpace c = (of_char c \<in> {9, 10, 11, 12, 13, 32, 160 :: nat})"

definition trimStart :: "string \<Rightarrow> string" where
  "trimStart s = dropWhile isWhiteSpace s"

definition trim :: "string \<Rightarrow> string" where
  "trim s = rev (dropWhile isWhiteSpace (rev (dropWhile isWhiteSpace s)))"

fun split :: "string \<Rightarrow> char \<Rightarrow> string list" where
  \<comment> \<open>\<open>s.split(c)\<close> for a one-character separator: never empty, \<open>''''.split(c) = ['''']\<close>.\<close>
  "split [] c = [[]]"
| "split (x # xs) c =
     (if x = c then [] # split xs c
      else (case split xs c of l # ls \<Rightarrow> (x # l) # ls | [] \<Rightarrow> [[x]]))"

fun join :: "string list \<Rightarrow> char \<Rightarrow> string" where
  \<comment> \<open>\<open>ls.join(c)\<close> for a one-character separator.\<close>
  "join [] c = []"
| "join [l] c = l"
| "join (l # l' # ls) c = l @ c # join (l' # ls) c"

section \<open>The selection transform engine (src/lib/selection.ts)\<close>

record SelectionRange =
  sel_start :: int
  sel_end :: int

text \<open>
  The local constant \<open>before\<close> of the source is written \<open>beforeText\<close> throughout (the
  plain name is reserved in Standard ML, into which the definitions are compiled for
  evaluation).
\<close>

record WrapResult =
  res_text :: string
  selection :: SelectionRange

definition toggleWrap :: "string \<Rightarrow> int \<Rightarrow> int \<Rightarrow> string \<Rightarrow> WrapResult" where
  "toggleWrap text start end token =
     (let beforeText = slice text 0 start;
          selected = slice text start end;
          after = slice_from text end;
          hasTokenBefore = endsWith beforeText token;
          hasTokenAfter = startsWith after token
      in if hasTokenBefore \<and> hasTokenAfter then
           \<lparr>res_text = slice beforeText 0 (- int (length token)) @ selected
                         @ slice_from after (int (length token)),
            selection = \<lparr>sel_start = start - int (length token),
                         sel_end = end - int (length token)\<rparr>\<rparr>
         else
           let selectedHasTokenStart = startsWith selected token;
               selectedHasTokenEnd = endsWith selected token
           in if selectedHasTokenStart \<and> selectedHasTokenEnd
                 \<and> int (length token) * 2 \<le> int (length selected) then
                \<lparr>res_text = beforeText
                     @ slice selected (int (length token)) (- int (length token)) @ after,
                 selection = \<lparr>sel_start = start,
                              sel_end = end - int (length token) * 2\<rparr>\<rparr>
              else
                \<lparr>res_text = beforeText @ token @ selected @ token @ after,
                 selection = \<lparr>sel_start = start + int (length token),
                              sel_end = end + int (length token)\<rparr>\<rparr>)"

definition toggleWrapAsymmetric ::
  "string \<Rightarrow> int \<Rightarrow> int \<Rightarrow> string \<Rightarrow> string \<Rightarrow> WrapResult" where
  "toggleWrapAsymmetric text start end startToken endToken =
     (let beforeText = slice text 0 start;
          selected = slice text start end;
          after = slice_from text end;
          hasTokenBefore = endsWith beforeText startToken;
          hasTokenAfter = startsWith after endToken
      in if hasTokenBefore \<and> hasTokenAfter then
           \<lparr>res_text = slice beforeText 0 (- int (length startToken)) @ selected
                         @ slice_from after (int (length endToken)),
            selection = \<lparr>sel_start = start - int (length startToken),
                         sel_end = end - int (length startToken)\<rparr>\<rparr>
         else
           \<lparr>res_text = beforeText @ startToken @ selected @ endToken @ after,
            selection = \<lparr>sel_start = start + int (length startToken),
                         sel_end = end + int (length startToken)\<rparr>\<rparr>)"

definition insertAt :: "string \<Rightarrow> int \<Rightarrow> string \<Rightarrow> WrapResult" where
  "insertAt text position toInsert =
     \<lparr>res_text = slice text 0 position @ toInsert @ slice_from text position,
      selection = \<lparr>sel_start = position + int (length toInsert),
                   sel_end = position + int (length toInsert)\<rparr>\<rparr>"

definition toggleBlockPrefix :: "string \<Rightarrow> int \<Rightarrow> int \<Rightarrow> string \<Rightarrow> WrapResult" where
  "toggleBlockPrefix text start end prefix =
     (let lineStart = lastIndexOf text CHR ''\<newline>'' (start - 1) + 1;
          lineEnd = indexOf text CHR ''\<newline>'' end;
          actualEnd = (if lineEnd = - 1 then int (length text) else lineEnd);
          beforeText = slice text 0 lineStart;
          selected = slice text lineStart actualEnd;
          after = slice_from text actualEnd;
          lines = split selected CHR ''\<newline>'';
          prefixWithSpace = prefix @ '' '';
          allHavePrefix =
            list_all (\<lambda>line. startsWith line prefixWithSpace \<or> trim line = []) lines;
          newLines =
            (if allHavePrefix then
               map (\<lambda>line. if startsWith line prefixWithSpace
                            then slice_from line (int (length prefixWithSpace)) else line) lines
             else
               map (\<lambda>line. if trim line = [] then line else prefixWithSpace @ line) lines);
          deltaLength =
            (if allHavePrefix then
               - int (length prefixWithSpace)
                 * int (length (filter (\<lambda>l. startsWith l prefixWithSpace) lines))
             else
               int (length prefixWithSpace)
                 * int (length (filter (\<lambda>l. \<not> (trim l = [])) lines)));
          newSelected = join newLines CHR ''\<newline>'';
          newText = beforeText @ newSelected @ after
      in \<lparr>res_text = newText,
          selection = \<lparr>sel_start = lineStart, sel_end = actualEnd + deltaLength\<rparr>\<rparr>)"

definition insertMaskedLink :: "string \<Rightarrow> int \<Rightarrow> int \<Rightarrow> string \<Rightarrow> WrapResult" where
  \<comment> \<open>\<open>text.slice(start, end) || 'link text'\<close>: the empty string is falsy.\<close>
  "insertMaskedLink text start end url =
     (let beforeText = slice text 0 start;
          selected = (if slice text start end = [] then ''link text'' else slice text start end);
          after = slice_from text end;
          link = ''['' @ selected @ '']('' @ url @ '')'';
          newText = beforeText @ link @ after;
          urlStart = start + int (length selected) + 3;
          urlEnd = urlStart + int (length url)
      in \<lparr>res_text = newText,
          selection = \<lparr>sel_start = (if url = ''url'' then urlStart else start),
                       sel_end = (if url = ''url'' then urlEnd
                                  else start + int (length link))\<rparr>\<rparr>)"

definition isWordChar :: "char \<Rightarrow> bool" where
  \<comment> \<open>The word characters of a regular expression: letters, digits and the underscore.\<close>
  "isWordChar c =
     (let n = (of_char c :: nat)
      in (48 \<le> n \<and> n \<le> 57) \<or> (65 \<le> n \<and> n \<le> 90) \<or> (97 \<le> n \<and> n \<le> 122) \<or> n = 95)"

fun fencePattern_test :: "string \<Rightarrow> bool" where
  \<comment> \<open>The test of the source's \<open>fencePattern\<close> on \<open>s\<close>: somewhere in \<open>s\<close> three
      backticks, then any number of word characters, then a line feed. A line feed is no
      word character, so the longest run of word characters is the only one that can be
      followed by it.\<close>
  "fencePattern_test [] = False"
| "fencePattern_test (x # xs) =
     ((startsWith (x # xs) [CHR 0x60, CHR 0x60, CHR 0x60]
       \<and> startsWith (dropWhile isWordChar (drop 3 (x # xs))) ''\<newline>'')
      \<or> fencePattern_test xs)"

definition toggleCodeBlock :: "string \<Rightarrow> int \<Rightarrow> int \<Rightarrow> string \<Rightarrow> WrapResult" where
  \<comment> \<open>The source tests whether the selection already sits in a fenced block and then
      does nothing with the answer (the body of that \<open>if\<close> is empty); the test is kept.\<close>
  "toggleCodeBlock text start end language =
     (let beforeText = slice text 0 start;
          selected = slice text start end;
          after = slice_from text end;
          openFence = [CHR 0x60, CHR 0x60, CHR 0x60] @ language @ ''\<newline>'';
          closeFence = ''\<newline>'' @ [CHR 0x60, CHR 0x60, CHR 0x60];
          hasOpenBefore = fencePattern_test (slice_from beforeText (- 20));
          hasCloseAfter = startsWith (trimStart after) [CHR 0x60, CHR 0x60, CHR 0x60];
          newText = beforeText @ openFence @ selected @ closeFence @ after
      in case (if hasOpenBefore \<and> hasCloseAfter then () else ()) of
           () \<Rightarrow> \<lparr>res_text = newText,
                  selection = \<lparr>sel_start = start + int (length openFence),
                               sel_end = end + int (length openFence)\<rparr>\<rparr>)"

subsection \<open>What the specification says of the engine\<close>

definition wellFormed :: "WrapResult \<Rightarrow> bool" where
  \<comment> \<open>The invariant the specification gives for a \<open>WrapResult\<close>.\<close>
  "wellFormed r = (sel_start (selection r) \<le> sel_end (selection r)
                   \<and> sel_end (selection r) \<le> int (length (res_text r)))"

definition substring :: "string \<Rightarrow> nat \<Rightarrow> nat \<Rightarrow> string" where
  \<comment> \<open>\<open>text[i:j]\<close> in the notation of the specification.\<close>
  "substring s i j = take (j - i) (drop i s)"

definition toggleWrap_spec :: "string \<Rightarrow> int \<Rightarrow> int \<Rightarrow> string \<Rightarrow> WrapResult" where
  \<comment> \<open>The three cases of the specification, in its words: (a) the token stands right
      before \<open>start\<close> and right after \<open>end\<close> and both occurrences are removed; (b) the
      selected text starts and ends with the token, is at least twice as long, and loses
      both; (c) the token is put on both sides.\<close>
  "toggleWrap_spec text start end token =
     (let n = length token; s = nat start; e = nat end
      in if n \<le> s \<and> substring text (s - n) s = token \<and> substring text e (e + n) = token then
           \<lparr>res_text = take (s - n) text @ substring text s e @ drop (e + n) text,
            selection = \<lparr>sel_start = start - int n, sel_end = end - int n\<rparr>\<rparr>
         else if 2 * n \<le> e - s \<and> substring text s (s + n) = token
                 \<and> substring text (e - n) e = token then
           \<lparr>res_text = take s text @ substring text (s + n) (e - n) @ drop e text,
            selection = \<lparr>sel_start = start, sel_end = end - 2 * int n\<rparr>\<rparr>
         else
           \<lparr>res_text = take s text @ token @ substring text s e @ token @ drop e text,
            selection = \<lparr>sel_start = start + int n, sel_end = end + int n\<rparr>\<rparr>)"

definition surrounded :: "string \<Rightarrow> int \<Rightarrow> int \<Rightarrow> string \<Rightarrow> bool" where
  \<comment> \<open>The test of the first branch of \<open>toggleWrap\<close>.\<close>
  "surrounded text start end token =
     (endsWith (slice text 0 start) token \<and> startsWith (slice_from text end) token)"

definition delimited :: "string \<Rightarrow> int \<Rightarrow> int \<Rightarrow> string \<Rightarrow> bool" where
  \<comment> \<open>The test of the second branch of \<open>toggleWrap\<close>.\<close>
  "delimited text start end token =
     (startsWith (slice text start end) token \<and> endsWith (slice text start end) token
      \<and> int (length token) * 2 \<le> int (length (slice text start end)))"

definition toggleWrapAgain :: "WrapResult \<Rightarrow> string \<Rightarrow> WrapResult" where
  \<comment> \<open>\<open>toggleWrap\<close> applied to the text and the selection a first application returned.\<close>
  "toggleWrapAgain r token =
     toggleWrap (res_text r) (sel_start (selection r)) (sel_end (selection r)) token"

definition blockLines :: "string \<Rightarrow> int \<Rightarrow> int \<Rightarrow> string list" where
  \<comment> \<open>The lines \<open>toggleBlockPrefix\<close> works on: the selection widened to whole lines, as
      the source computes it, split at the line feeds.\<close>
  "blockLines text start end =
     (let lineStart = lastIndexOf text CHR ''\<newline>'' (start - 1) + 1;
          lineEnd = indexOf text CHR ''\<newline>'' end;
          actualEnd = (if lineEnd = - 1 then int (length text) else lineEnd)
      in split (slice text lineStart actualEnd) CHR ''\<newline>'')"

definition allHavePrefix :: "string \<Rightarrow> string list \<Rightarrow> bool" where
  \<comment> \<open>The test \<open>allHavePrefix\<close> of the source on a list of lines.\<close>
  "allHavePrefix prefix lines =
     list_all (\<lambda>line. startsWith line (prefix @ '' '') \<or> trim line = []) lines"

definition stripLine :: "string \<Rightarrow> string \<Rightarrow> string" where
  \<comment> \<open>What the source maps over the lines when it removes the prefix.\<close>
  "stripLine prefix line =
     (if startsWith line (prefix @ '' '')
      then slice_from line (int (length (prefix @ '' ''))) else line)"

definition addLine :: "string \<Rightarrow> string \<Rightarrow> string" where
  \<comment> \<open>What the source maps over the lines when it adds the prefix.\<close>
  "addLine prefix line = (if trim line = [] then line else (prefix @ '' '') @ line)"

definition toggleBlockPrefixAgain :: "WrapResult \<Rightarrow> string \<Rightarrow> WrapResult" where
  \<comment> \<open>\<open>toggleBlockPrefix\<close> applied to the text and the selection a first application
      returned.\<close>
  "toggleBlockPrefixAgain r prefix =
     toggleBlockPrefix (res_text r) (sel_start (selection r)) (sel_end (selection r)) prefix"

section \<open>The URL sanitizer (src/lib/sanitize.ts)\<close>

text \<open>
  \<open>sanitizeUrl\<close> tests the trimmed URL against two regular expressions, both anchored at
  the start and both case-insensitive. A regular expression is modelled by its syntax
  tree and a matcher that returns, for every way the expression matches a prefix of the
  input, what is left of the input; \<open>test\<close> succeeds when there is such a way. Without
  the \<open>u\<close> flag, ignoring case compares the upper-case forms of two code units, and a
  code unit outside ASCII never has an ASCII upper-case form there, so for the ASCII
  patterns of the source only the ASCII letters fold.
\<close>

definition toUpperAscii :: "char \<Rightarrow> char" where
  "toUpperAscii c =
     (if 97 \<le> (of_char c :: nat) \<and> (of_char c :: nat) \<le> 122
      then char_of ((of_char c :: nat) - 32) else c)"

datatype regex = Empty | Lit char | Seq regex regex | Alt regex regex | Opt regex

definition canonicalize :: "bool \<Rightarrow> char \<Rightarrow> char" where
  "canonicalize ignoreCase c = (if ignoreCase then toUpperAscii c else c)"

fun matchPrefix :: "bool \<Rightarrow> regex \<Rightarrow> string \<Rightarrow> string list" where
  "matchPrefix ic Empty s = [s]"
| "matchPrefix ic (Lit c) s =
     (case s of [] \<Rightarrow> []
      | x # xs \<Rightarrow> if canonicalize ic x = canonicalize ic c then [xs] else [])"
| "matchPrefix ic (Seq a b) s = concat (map (matchPrefix ic b) (matchPrefix ic a s))"
| "matchPrefix ic (Alt a b) s = matchPrefix ic a s @ matchPrefix ic b s"
| "matchPrefix ic (Opt a) s = matchPrefix ic a s @ [s]"

definition regexTest :: "bool \<Rightarrow> regex \<Rightarrow> string \<Rightarrow> bool" where
  \<comment> \<open>\<open>r.test(s)\<close> for an expression \<open>r\<close> that starts with the anchor.\<close>
  "regexTest ignoreCase r s = (matchPrefix ignoreCase r s \<noteq> [])"

fun lit :: "string \<Rightarrow> regex" where
  \<comment> \<open>A run of literal characters.\<close>
  "lit [] = Empty"
| "lit (c # cs) = Seq (Lit c) (lit cs)"

definition DANGEROUS_URI_REGEXP :: regex where
  \<comment> \<open>The expression of the first test: \<open>javascript\<close>, \<open>data\<close> or \<open>vbscript\<close>, then a
      colon; anchored, ignoring case. The source writes it in place.\<close>
  "DANGEROUS_URI_REGEXP =
     Seq (Alt (lit ''javascript'') (Alt (lit ''data'') (lit ''vbscript''))) (Lit CHR '':'')"

definition ALLOWED_URI_REGEXP :: regex where
  \<comment> \<open>\<open>http\<close> with an optional \<open>s\<close>, or \<open>mailto\<close>, then a colon; anchored, ignoring
      case.\<close>
  "ALLOWED_URI_REGEXP =
     Seq (Alt (Seq (lit ''http'') (Opt (Lit CHR ''s''))) (lit ''mailto'')) (Lit CHR '':'')"

fun str_includes :: "string \<Rightarrow> string \<Rightarrow> bool" where
  \<comment> \<open>\<open>s.includes(sub)\<close>.\<close>
  "str_includes [] sub = (sub = [])"
| "str_includes (x # xs) sub = (startsWith (x # xs) sub \<or> str_includes xs sub)"

definition sanitizeUrl :: "string \<Rightarrow> string" where
  "sanitizeUrl url =
     (let trimmed = trim url
      in if regexTest True DANGEROUS_URI_REGEXP trimmed then []
         else if regexTest True ALLOWED_URI_REGEXP trimmed \<or> startsWith trimmed ''/''
                 \<or> startsWith trimmed ''#'' then trimmed
         else if \<not> str_includes trimmed ''://'' then ''https://'' @ trimmed
         else [])"

subsection \<open>What the specification says of sanitizeUrl\<close>

definition toLowerAscii :: "char \<Rightarrow> char" where
  "toLowerAscii c =
     (if 65 \<le> (of_char c :: nat) \<and> (of_char c :: nat) \<le> 90
      then char_of ((of_char c :: nat) + 32) else c)"

definition hasScheme :: "string \<Rightarrow> string \<Rightarrow> bool" where
  \<comment> \<open>\<open>s\<close> starts with the scheme (written in lower case, with its colon), whatever the
      case of the letters of \<open>s\<close>.\<close>
  "hasScheme scheme s = (map toLowerAscii (take (length scheme) s) = scheme)"

definition ciPrefix :: "string \<Rightarrow> string \<Rightarrow> bool" where
  \<comment> \<open>\<open>s\<close> starts with \<open>p\<close> when both are folded to upper case, as the matcher folds.\<close>
  "ciPrefix p s = (length p \<le> length s
                   \<and> map toUpperAscii (take (length p) s) = map toUpperAscii p)"

definition sanitizeUrl_spec :: "string \<Rightarrow> string" where
  \<comment> \<open>The algorithm of the specification, in its words, on the trimmed input.\<close>
  "sanitizeUrl_spec url =
     (let t = trim url
      in if hasScheme ''javascript:'' t \<or> hasScheme ''data:'' t \<or> hasScheme ''vbscript:'' t
         then []
         else if hasScheme ''http:'' t \<or> hasScheme ''https:'' t \<or> hasScheme ''mailto:'' t
                 \<or> take 1 t = ''/'' \<or> take 1 t = ''#'' then t
         else if \<not> (\<exists>a b. t = a @ ''://'' @ b) then ''https://'' @ t
         else [])"

section \<open>Relative time (src/lib/markdown.ts and src/lib/time.ts)\<close>

text \<open>
  Both files have a function \<open>formatRelativeTime(epoch)\<close> that reads the clock itself:
  \<open>now = Math.floor(Date.now() / 1000)\<close>. The value of \<open>Date.now()\<close>, in milliseconds, is
  the first argument of the model. The one of src/lib/markdown.ts keeps its name; the one
  of src/lib/time.ts is \<open>time_formatRelativeTime\<close>. Epochs and differences are integers
  (the parser hands over what \<open>parseInt\<close> returned), and an integer is printed in decimal,
  as JavaScript prints one below \<open>10^21\<close>.
\<close>

definition digitChar :: "int \<Rightarrow> char" where
  "digitChar d = ''0123456789'' ! nat d"

function decimal :: "int \<Rightarrow> string" where
  \<comment> \<open>The decimal digits of an integer that is not negative.\<close>
  "decimal n = (if n < 10 then [digitChar n] else decimal (n div 10) @ [digitChar (n mod 10)])"
  by pat_completeness auto
termination
  by (relation "measure nat") auto

declare decimal.simps [simp del]

definition numberToString :: "int \<Rightarrow> string" where
  \<comment> \<open>An integer inside a template literal, or under \<open>String\<close>.\<close>
  "numberToString i = (if i < 0 then ''-'' @ decimal (- i) else decimal i)"

datatype threshold = Finite int | Infinity

fun belowThreshold :: "int \<Rightarrow> threshold \<Rightarrow> bool" where
  "belowThreshold a (Finite n) = (a < n)"
| "belowThreshold a Infinity = True"

fun floorDiv :: "int \<Rightarrow> threshold \<Rightarrow> int" where
  \<comment> \<open>\<open>Math.floor(a / t)\<close> for an integer \<open>a\<close> that is not negative.\<close>
  "floorDiv a (Finite n) = a div n"
| "floorDiv a Infinity = 0"

definition units :: "(threshold \<times> string \<times> string) list" where
  "units =
     [(Finite 60, ''second'', ''seconds''),
      (Finite (60 * 60), ''minute'', ''minutes''),
      (Finite (60 * 60 * 24), ''hour'', ''hours''),
      (Finite (60 * 60 * 24 * 30), ''day'', ''days''),
      (Finite (60 * 60 * 24 * 365), ''month'', ''months''),
      (Infinity, ''year'', ''years'')]"

function unitLoop :: "nat \<Rightarrow> int \<Rightarrow> int \<times> string \<Rightarrow> int \<times> string" where
  \<comment> \<open>The \<open>for\<close> loop over \<open>units\<close> from index \<open>i\<close>, with \<open>value\<close> and \<open>unit\<close> as they stand;
      \<open>break\<close> is the branch that does not go on.\<close>
  "unitLoop i absDiff (value, unit) =
     (if i < length units then
        (case units ! i of (threshold, singular, plural) \<Rightarrow>
           if belowThreshold absDiff threshold then
             (let prevThreshold = (if 0 < i then fst (units ! (i - 1)) else Finite 1);
                  value' = floorDiv absDiff prevThreshold;
                  unit' = (if value' = 1 then singular else plural)
              in (value', unit'))
           else unitLoop (i + 1) absDiff (value, unit))
      else (value, unit))"
  by pat_completeness auto
termination
  by (relation "measure (\<lambda>(i, absDiff, vu). length units - i)") auto

declare unitLoop.simps [simp del]

definition formatRelativeTime :: "int \<Rightarrow> int \<Rightarrow> string" where
  "formatRelativeTime dateNow epoch =
     (let now = dateNow div 1000;
          diff = epoch - now;
          absDiff = \<bar>diff\<bar>
      in case unitLoop 0 absDiff (absDiff, ''seconds'') of (value, unit) \<Rightarrow>
           if diff < 0 then numberToString value @ '' '' @ unit @ '' ago''
           else if 0 < diff then ''in '' @ numberToString value @ '' '' @ unit
           else ''now'')"

definition time_formatRelativeTime :: "int \<Rightarrow> int \<Rightarrow> string" where
  "time_formatRelativeTime dateNow epoch =
     (let now = dateNow div 1000;
          diff = epoch - now;
          absDiff = \<bar>diff\<bar>
      in if absDiff < 60 then
           (let secs = absDiff; unit = (if secs = 1 then ''second'' else ''seconds'')
            in if diff < 0 then numberToString secs @ '' '' @ unit @ '' ago''
               else ''in '' @ numberToString secs @ '' '' @ unit)
         else if absDiff < 3600 then
           (let mins = absDiff div 60; unit = (if mins = 1 then ''minute'' else ''minutes'')
            in if diff < 0 then numberToString mins @ '' '' @ unit @ '' ago''
               else ''in '' @ numberToString mins @ '' '' @ unit)
         else if absDiff < 86400 then
           (let hours = absDiff div 3600; unit = (if hours = 1 then ''hour'' else ''hours'')
            in if diff < 0 then numberToString hours @ '' '' @ unit @ '' ago''
               else ''in '' @ numberToString hours @ '' '' @ unit)
         else if absDiff < 2592000 then
           (let days = absDiff div 86400; unit = (if days = 1 then ''day'' else ''days'')
            in if diff < 0 then numberToString days @ '' '' @ unit @ '' ago''
               else ''in '' @ numberToString days @ '' '' @ unit)
         else if absDiff < 31536000 then
           (let months = absDiff div 2592000;
                unit = (if months = 1 then ''month'' else ''months'')
            in if diff < 0 then numberToString months @ '' '' @ unit @ '' ago''
               else ''in '' @ numberToString months @ '' '' @ unit)
         else
           (let years = absDiff div 31536000; unit = (if years = 1 then ''year'' else ''years'')
            in if diff < 0 then numberToString years @ '' '' @ unit @ '' ago''
               else ''in '' @ numberToString years @ '' '' @ unit))"

subsection \<open>What the specification says of style R\<close>

definition rung :: "int \<Rightarrow> int \<times> string" where
  \<comment> \<open>The rung of the ladder for a distance: the threshold of the rung before it (1 for
      the first) and the name of its unit.\<close>
  "rung a = (if a < 60 then (1, ''second'')
             else if a < 3600 then (60, ''minute'')
             else if a < 86400 then (3600, ''hour'')
             else if a < 2592000 then (86400, ''day'')
             else if a < 31536000 then (2592000, ''month'')
             else (31536000, ''year''))"

definition relativeTime_spec :: "int \<Rightarrow> int \<Rightarrow> string" where
  "relativeTime_spec now epoch =
     (let diff = epoch - now;
          a = \<bar>diff\<bar>;
          n = a div fst (rung a);
          unit = (if n = 1 then snd (rung a) else snd (rung a) @ ''s'')
      in if diff < 0 then numberToString n @ '' '' @ unit @ '' ago''
         else if 0 < diff then ''in '' @ numberToString n @ '' '' @ unit
         else ''now'')"

section \<open>Timestamps (src/lib/markdown.ts)\<close>

text \<open>
  \<open>formatTimestamp(epoch, style)\<close> reads two things of the host: the clock, through
  \<open>formatRelativeTime\<close>, and the locale and time zone, through the \<open>toLocale...String\<close>
  methods of a \<open>Date\<close>. Both are fields of a \<open>Host\<close>: \<open>clockMs\<close> is what \<open>Date.now()\<close>
  returns. The methods are the platform's, not
  the repository's; \<open>toLocale host f date\<close> stands for what the host prints for the date
  \<open>date\<close> (in milliseconds) with the options of format \<open>f\<close>, one format for each \<open>case\<close> of
  the source and one for the default.
\<close>

datatype DateFormat =
  ShortTime | LongTime | ShortDate | LongDate | ShortDateTime | LongDateTime | DefaultFormat

record Host =
  clockMs :: int
  toLocale :: "DateFormat \<Rightarrow> int \<Rightarrow> string"

definition formatTimestamp :: "Host \<Rightarrow> int \<Rightarrow> string \<Rightarrow> string" where
  "formatTimestamp host epoch style =
     (let date = epoch * 1000
      in if style = ''t'' then toLocale host ShortTime date
         else if style = ''T'' then toLocale host LongTime date
         else if style = ''d'' then toLocale host ShortDate date
         else if style = ''D'' then toLocale host LongDate date
         else if style = ''f'' then toLocale host ShortDateTime date
         else if style = ''F'' then toLocale host LongDateTime date
         else if style = ''R'' then formatRelativeTime (clockMs host) epoch
         else toLocale host DefaultFormat date)"

subsection \<open>The inline rule\<close>

text \<open>
  The rule works on the state of the inline parser of markdown-it. Of the state and of a
  token the model keeps the fields the rule reads or writes. \<open>state.push\<close> appends a new
  token; \<open>attrSet\<close> replaces the attribute of that name or appends it.
\<close>

record Token =
  type :: string
  tag :: string
  nesting :: int
  markup :: string
  content :: string
  attrs :: "(string \<times> string) list"

record StateInline =
  src :: string
  pos :: int
  posMax :: int
  tokens :: "Token list"

fun attrSetList :: "(string \<times> string) list \<Rightarrow> string \<Rightarrow> string \<Rightarrow> (string \<times> string) list" where
  "attrSetList [] name value = [(name, value)]"
| "attrSetList ((k, v) # rest) name value =
     (if k = name then (name, value) # rest else (k, v) # attrSetList rest name value)"

definition attrSet :: "Token \<Rightarrow> string \<Rightarrow> string \<Rightarrow> Token" where
  "attrSet token name value = token\<lparr>attrs := attrSetList (attrs token) name value\<rparr>"


definition newToken :: "string \<Rightarrow> string \<Rightarrow> int \<Rightarrow> Token" where
  "newToken ty tg n =
     \<lparr>type = ty, tag = tg, nesting = n, markup = [], content = [], attrs = []\<rparr>"

definition isDigit :: "char \<Rightarrow> bool" where
  "isDigit c = (48 \<le> (of_char c :: nat) \<and> (of_char c :: nat) \<le> 57)"

definition digitValue :: "char \<Rightarrow> int" where
  "digitValue c = of_char c - 48"

definition parseInt :: "string \<Rightarrow> int option" where
  \<comment> \<open>\<open>parseInt(s, 10)\<close>, with \<open>None\<close> for \<open>NaN\<close>: leading white space is skipped, a sign
      may follow, then the longest run of decimal digits is read and whatever comes after
      it is ignored; without a digit the result is \<open>NaN\<close>.\<close>
  "parseInt s =
     (let t = dropWhile isWhiteSpace s;
          negative = startsWith t ''-'';
          r = (if startsWith t ''-'' \<or> startsWith t ''+'' then drop 1 t else t);
          digits = takeWhile isDigit r
      in if digits = [] then None
         else Some ((if negative then - 1 else 1)
                    * foldl (\<lambda>n d. 10 * n + digitValue d) 0 digits))"

definition discord_timestamp :: "Host \<Rightarrow> StateInline \<Rightarrow> bool \<Rightarrow> bool \<times> StateInline" where
  \<comment> \<open>The rule \<open>discord_timestamp\<close>: what it returns and the state it leaves.
      \<open>parts[1] || 'f'\<close> is \<open>'f'\<close> when there is no second part or it is empty.\<close>
  "discord_timestamp host state silent =
     (let start = pos state
      in if slice (src state) start (start + 3) \<noteq> ''<t:'' then (False, state)
         else
           let end = indexOf (src state) CHR ''>'' (start + 3)
           in if end = - 1 then (False, state)
              else
                let content = slice (src state) (start + 3) end;
                    parts = split content CHR '':''
                in case parseInt (parts ! 0) of
                     None \<Rightarrow> (False, state)
                   | Some epoch \<Rightarrow>
                       let style = (if 1 < length parts \<and> parts ! 1 \<noteq> [] then parts ! 1
                                    else ''f'');
                           token0 = newToken ''discord_timestamp'' ''span'' 0;
                           token1 = token0\<lparr>markup := slice (src state) start (end + 1)\<rparr>;
                           token2 = attrSet token1 ''class'' ''discord-timestamp'';
                           token3 = attrSet token2 ''data-epoch'' (numberToString epoch);
                           token4 = attrSet token3 ''data-style'' style;
                           token5 = token4\<lparr>content := formatTimestamp host epoch style\<rparr>;
                           pushed = (if silent then state
                                     else state\<lparr>tokens := tokens state @ [token5]\<rparr>)
                       in (True, pushed\<lparr>pos := end + 1\<rparr>))"


section \<open>Slices inside the bounds\<close>

lemma slice_prefix: "0 \<le> a \<Longrightarrow> a \<le> int (length s) \<Longrightarrow> slice s 0 a = take (nat a) s"
  by (simp add: slice_def Let_def min_def)

lemma slice_middle:
  "0 \<le> a \<Longrightarrow> a \<le> b \<Longrightarrow> b \<le> int (length s)
   \<Longrightarrow> slice s a b = take (nat b - nat a) (drop (nat a) s)"
  by (simp add: slice_def Let_def min_def nat_diff_distrib)

lemma slice_from_suffix:
  "0 \<le> a \<Longrightarrow> a \<le> int (length s) \<Longrightarrow> slice_from s a = drop (nat a) s"
  by (simp add: slice_from_def slice_def Let_def min_def)

lemma take_drop_glue: "a \<le> b \<Longrightarrow> take (b - a) (drop a xs) @ drop b xs = drop a xs"
proof -
  assume "a \<le> b"
  then have "drop b xs = drop (b - a) (drop a xs)"
    by simp
  then show ?thesis
    by (simp only: append_take_drop_id)
qed

lemma slice_zero_zero: "slice s 0 0 = []"
  by (simp add: slice_def)

lemma slice_from_zero: "slice_from s 0 = s"
  by (simp add: slice_from_def slice_def)

lemma endsWith_empty: "endsWith s []"
  by (simp add: endsWith_def)

lemma startsWith_empty: "startsWith s []"
  by (simp add: startsWith_def)

lemma nat_int_sub: "nat (int a - int b) = a - b"
  by arith

lemma nat_int_sub2: "nat (int a - 2 * int b) = a - (b + b)"
  by arith

lemma nat_len [simp]:
  "nat (int (length (B :: string)) + int (length (S :: string))) = length B + length S"
  by (simp add: nat_add_distrib)

lemma slice_drop_last:
  "t \<noteq> [] \<Longrightarrow> slice B 0 (- int (length t)) = take (length B - length t) B"
  by (cases "length t \<le> length B") (simp_all add: slice_def nat_int_sub)

lemma slice_from_nat: "slice_from A (int n) = drop n A"
  by (cases "n \<le> length A") (simp_all add: slice_from_def slice_def)

lemma slice_strip_both:
  "t \<noteq> [] \<Longrightarrow> slice S (int (length t)) (- int (length t))
     = take (length S - length t - length t) (drop (length t) S)"
  by (cases "length t \<le> length S") (simp_all add: slice_def nat_int_sub2)

lemma endsWith_append: "endsWith (r @ p) p"
  by (simp add: endsWith_def)

lemma startsWith_append: "startsWith (p @ r) p"
  by (simp add: startsWith_def)

lemma endsWith_split: "endsWith s p \<Longrightarrow> s = take (length s - length p) s @ p"
  by (metis append_take_drop_id endsWith_def)

lemma startsWith_split: "startsWith s p \<Longrightarrow> s = p @ drop (length p) s"
  by (metis append_take_drop_id startsWith_def)

section \<open>A text cut at the selection\<close>

text \<open>
  A text with a selection inside its bounds is \<open>B @ S @ A\<close>: what stands before the
  selection, the selected text, and what stands after it. The three slices every
  function of the engine starts with are these three parts.
\<close>

lemma decompose:
  assumes "0 \<le> start" and "start \<le> end" and "end \<le> int (length text)"
  obtains B S A where "text = B @ S @ A" and "start = int (length B)"
    and "end = int (length B) + int (length S)"
proof
  let ?B = "take (nat start) text"
  let ?S = "take (nat end - nat start) (drop (nat start) text)"
  let ?A = "drop (nat end) text"
  show "text = ?B @ ?S @ ?A"
    using assms by (simp add: take_drop_glue)
  show "start = int (length ?B)" using assms by simp
  show "end = int (length ?B) + int (length ?S)" using assms by auto
qed

lemma parts_before: "slice (B @ S @ A) 0 (int (length B)) = B"
  by (simp add: slice_def)

lemma parts_selected: "slice (B @ S @ A) (int (length B)) (int (length B) + int (length S)) = S"
  by (simp add: slice_def)

lemma parts_after: "slice_from (B @ S @ A) (int (length B) + int (length S)) = A"
  by (simp add: slice_from_def slice_def)

section \<open>toggleWrap: the three cases\<close>

lemma toggleWrap_parts:
  "toggleWrap (B @ S @ A) (int (length B)) (int (length B) + int (length S)) token =
     (if endsWith B token \<and> startsWith A token then
        \<lparr>res_text = slice B 0 (- int (length token)) @ S @ slice_from A (int (length token)),
         selection = \<lparr>sel_start = int (length B) - int (length token),
                      sel_end = int (length B) + int (length S) - int (length token)\<rparr>\<rparr>
      else if startsWith S token \<and> endsWith S token
              \<and> int (length token) * 2 \<le> int (length S) then
        \<lparr>res_text = B @ slice S (int (length token)) (- int (length token)) @ A,
         selection = \<lparr>sel_start = int (length B),
                      sel_end = int (length B) + int (length S) - int (length token) * 2\<rparr>\<rparr>
      else
        \<lparr>res_text = B @ token @ S @ token @ A,
         selection = \<lparr>sel_start = int (length B) + int (length token),
                      sel_end = int (length B) + int (length S) + int (length token)\<rparr>\<rparr>)"
  by (simp add: toggleWrap_def Let_def parts_before parts_selected parts_after)

lemma spec_cond_a:
  "(length t \<le> length B \<and> substring (B @ S @ A) (length B - length t) (length B) = t
    \<and> substring (B @ S @ A) (length B + length S) (length B + length S + length t) = t)
   \<longleftrightarrow> (endsWith B t \<and> startsWith A t)"
  by (auto simp: substring_def endsWith_def startsWith_def)

lemma spec_cond_b:
  "(2 * length t \<le> length B + length S - length B
     \<and> substring (B @ S @ A) (length B) (length B + length t) = t
     \<and> substring (B @ S @ A) (length B + length S - length t) (length B + length S) = t)
   \<longleftrightarrow> (startsWith S t \<and> endsWith S t \<and> int (length t) * 2 \<le> int (length S))"
  by (auto simp: substring_def endsWith_def startsWith_def)

lemma toggleWrap_spec_parts:
  "token \<noteq> [] \<Longrightarrow>
   toggleWrap_spec (B @ S @ A) (int (length B)) (int (length B) + int (length S)) token =
     (if endsWith B token \<and> startsWith A token then
        \<lparr>res_text = slice B 0 (- int (length token)) @ S @ slice_from A (int (length token)),
         selection = \<lparr>sel_start = int (length B) - int (length token),
                      sel_end = int (length B) + int (length S) - int (length token)\<rparr>\<rparr>
      else if startsWith S token \<and> endsWith S token
              \<and> int (length token) * 2 \<le> int (length S) then
        \<lparr>res_text = B @ slice S (int (length token)) (- int (length token)) @ A,
         selection = \<lparr>sel_start = int (length B),
                      sel_end = int (length B) + int (length S) - int (length token) * 2\<rparr>\<rparr>
      else
        \<lparr>res_text = B @ token @ S @ token @ A,
         selection = \<lparr>sel_start = int (length B) + int (length token),
                      sel_end = int (length B) + int (length S) + int (length token)\<rparr>\<rparr>)"
  unfolding toggleWrap_spec_def Let_def nat_len nat_int spec_cond_a spec_cond_b
  by (auto simp: slice_drop_last slice_from_nat slice_strip_both substring_def endsWith_def)

text \<open>
  For a token that is not empty, \<open>toggleWrap\<close> is the three cases of the specification,
  in their order, on every text and every selection inside its bounds.
\<close>

lemma toggleWrap_three_cases:
  assumes "token \<noteq> []" and "0 \<le> start" and "start \<le> end" and "end \<le> int (length text)"
  shows "toggleWrap text start end token = toggleWrap_spec text start end token"
proof -
  from assms(2-4) obtain B S A where "text = B @ S @ A" "start = int (length B)"
    "end = int (length B) + int (length S)"
    by (rule decompose)
  then show ?thesis
    using toggleWrap_spec_parts [OF assms(1), of B S A] by (simp only: toggleWrap_parts)
qed

lemma toggleWrap_hello_world:
  "toggleWrap ''hello world'' 0 5 ''**''
     = \<lparr>res_text = ''**hello** world'', selection = \<lparr>sel_start = 2, sel_end = 7\<rparr>\<rparr>"
  using toggleWrap_three_cases [of "''**''" 0 5 "''hello world''"]
  by (simp add: toggleWrap_spec_def substring_def)

text \<open>
  Claim C3 (the three cases, for every token). With the empty token the first case
  applies, and removing both occurrences of the empty token leaves the text as it is;
  \<open>toggleWrap\<close> returns the text without what stood before \<open>start\<close>. On \<open>ab\<close> with the
  selection \<open>{1, 2}\<close> the three cases give \<open>ab\<close> and the function gives \<open>b\<close>.
\<close>

theorem toggleWrap_cases_fail_on_empty_token:
  "toggleWrap ''ab'' 1 2 '''' = \<lparr>res_text = ''b'', selection = \<lparr>sel_start = 1, sel_end = 2\<rparr>\<rparr>
   \<and> toggleWrap_spec ''ab'' 1 2 ''''
       = \<lparr>res_text = ''ab'', selection = \<lparr>sel_start = 1, sel_end = 2\<rparr>\<rparr>"
  by (simp add: toggleWrap_def toggleWrap_spec_def substring_def slice_def slice_from_def
      endsWith_def startsWith_def)

section \<open>toggleWrap twice\<close>

lemma surrounded_parts:
  "surrounded (B @ S @ A) (int (length B)) (int (length B) + int (length S)) t
   = (endsWith B t \<and> startsWith A t)"
  by (simp add: surrounded_def parts_before parts_after)

lemma delimited_parts:
  "delimited (B @ S @ A) (int (length B)) (int (length B) + int (length S)) t
   = (startsWith S t \<and> endsWith S t \<and> int (length t) * 2 \<le> int (length S))"
  by (simp add: delimited_def parts_selected)

lemma wrap_then_unwrap_parts:
  assumes t: "t \<noteq> []"
    and na: "\<not> (endsWith B t \<and> startsWith A t)"
    and nb: "\<not> (startsWith S t \<and> endsWith S t \<and> int (length t) * 2 \<le> int (length S))"
  shows "toggleWrapAgain
           (toggleWrap (B @ S @ A) (int (length B)) (int (length B) + int (length S)) t) t
         = \<lparr>res_text = B @ S @ A,
            selection = \<lparr>sel_start = int (length B),
                         sel_end = int (length B) + int (length S)\<rparr>\<rparr>"
proof -
  have r1: "toggleWrap (B @ S @ A) (int (length B)) (int (length B) + int (length S)) t
      = \<lparr>res_text = (B @ t) @ S @ (t @ A),
         selection = \<lparr>sel_start = int (length (B @ t)),
                      sel_end = int (length (B @ t)) + int (length S)\<rparr>\<rparr>"
    using na nb by (auto simp add: toggleWrap_parts)
  have "toggleWrap ((B @ t) @ S @ (t @ A)) (int (length (B @ t)))
          (int (length (B @ t)) + int (length S)) t
        = \<lparr>res_text = B @ S @ A,
           selection = \<lparr>sel_start = int (length B),
                        sel_end = int (length B) + int (length S)\<rparr>\<rparr>"
    unfolding toggleWrap_parts using t
    by (simp add: endsWith_append startsWith_append slice_drop_last slice_from_nat)
  then show ?thesis
    by (simp add: toggleWrapAgain_def r1)
qed

lemma unwrap_then_wrap_parts:
  assumes t: "t \<noteq> []"
    and a: "endsWith B t" "startsWith A t"
    and r: "r1 = toggleWrap (B @ S @ A) (int (length B)) (int (length B) + int (length S)) t"
    and na: "\<not> surrounded (res_text r1) (sel_start (selection r1)) (sel_end (selection r1)) t"
    and nb: "\<not> delimited (res_text r1) (sel_start (selection r1)) (sel_end (selection r1)) t"
  shows "toggleWrapAgain r1 t
         = \<lparr>res_text = B @ S @ A,
            selection = \<lparr>sel_start = int (length B),
                         sel_end = int (length B) + int (length S)\<rparr>\<rparr>"
proof -
  define B' where "B' = take (length B - length t) B"
  define A' where "A' = drop (length t) A"
  have B: "B = B' @ t" using a(1) endsWith_split by (simp add: B'_def)
  have A: "A = t @ A'" using a(2) startsWith_split by (simp add: A'_def)
  have r1: "r1 = \<lparr>res_text = B' @ S @ A',
         selection = \<lparr>sel_start = int (length B'),
                      sel_end = int (length B') + int (length S)\<rparr>\<rparr>"
    unfolding r toggleWrap_parts using a t
    by (simp add: slice_drop_last slice_from_nat B'_def A'_def endsWith_def)
  have na': "\<not> (endsWith B' t \<and> startsWith A' t)"
    using na by (simp add: r1 surrounded_parts)
  have nb': "\<not> (startsWith S t \<and> endsWith S t \<and> int (length t) * 2 \<le> int (length S))"
    using nb by (simp add: r1 delimited_parts)
  have "toggleWrap (B' @ S @ A') (int (length B')) (int (length B') + int (length S)) t
        = \<lparr>res_text = B' @ t @ S @ t @ A',
           selection = \<lparr>sel_start = int (length B') + int (length t),
                        sel_end = int (length B') + int (length S) + int (length t)\<rparr>\<rparr>"
    using na' nb' by (auto simp add: toggleWrap_parts)
  then show ?thesis
    unfolding toggleWrapAgain_def r1 by (simp add: B A)
qed

text \<open>
  Claim C4, as amended. For a token that is not empty and a selection inside the bounds
  of the text: when the first application wraps (the token neither surrounds the
  selection nor delimits the selected text), a second application to the text and the
  selection it returned gives back the text and the selection; when the first
  application removes the tokens around the selection, a second application gives back
  the text and the selection provided it wraps, that is, provided the token neither
  surrounds the new selection nor delimits the selected text.
\<close>

theorem toggleWrap_round_trip:
  assumes "token \<noteq> []" and "0 \<le> start" and "start \<le> end" and "end \<le> int (length text)"
  shows "(\<not> surrounded text start end token \<and> \<not> delimited text start end token
          \<longrightarrow> toggleWrapAgain (toggleWrap text start end token) token
              = \<lparr>res_text = text, selection = \<lparr>sel_start = start, sel_end = end\<rparr>\<rparr>)
       \<and> (surrounded text start end token
          \<and> \<not> surrounded (res_text (toggleWrap text start end token))
                 (sel_start (selection (toggleWrap text start end token)))
                 (sel_end (selection (toggleWrap text start end token))) token
          \<and> \<not> delimited (res_text (toggleWrap text start end token))
                 (sel_start (selection (toggleWrap text start end token)))
                 (sel_end (selection (toggleWrap text start end token))) token
          \<longrightarrow> toggleWrapAgain (toggleWrap text start end token) token
              = \<lparr>res_text = text, selection = \<lparr>sel_start = start, sel_end = end\<rparr>\<rparr>)"
proof -
  from assms(2-4) obtain B S A where d: "text = B @ S @ A" "start = int (length B)"
    "end = int (length B) + int (length S)"
    by (rule decompose)
  show ?thesis
    unfolding d
    using wrap_then_unwrap_parts [OF assms(1), of B A S]
      unwrap_then_wrap_parts [OF assms(1) _ _ refl, of B A S]
    by (simp add: surrounded_parts delimited_parts)
qed

theorem toggleWrap_round_trip_witness:
  "toggleWrapAgain (toggleWrap ''hello world'' 0 5 ''**'') ''**''
     = \<lparr>res_text = ''hello world'', selection = \<lparr>sel_start = 0, sel_end = 5\<rparr>\<rparr>
   \<and> toggleWrapAgain (toggleWrap ''**hello** world'' 2 7 ''**'') ''**''
     = \<lparr>res_text = ''**hello** world'', selection = \<lparr>sel_start = 2, sel_end = 7\<rparr>\<rparr>"
proof -
  have a: "\<not> surrounded ''hello world'' 0 5 ''**'' \<and> \<not> delimited ''hello world'' 0 5 ''**''"
    by (simp add: surrounded_def delimited_def slice_def slice_from_def endsWith_def
        startsWith_def)
  have r: "toggleWrap ''**hello** world'' 2 7 ''**''
      = \<lparr>res_text = ''hello world'', selection = \<lparr>sel_start = 0, sel_end = 5\<rparr>\<rparr>"
    by (simp add: toggleWrap_def slice_def slice_from_def endsWith_def startsWith_def)
  have b: "surrounded ''**hello** world'' 2 7 ''**''"
    by (simp add: surrounded_def slice_def slice_from_def endsWith_def startsWith_def)
  show ?thesis
    using toggleWrap_round_trip [of "''**''" 0 5 "''hello world''"]
      toggleWrap_round_trip [of "''**''" 2 7 "''**hello** world''"] a b
    by (simp add: r)
qed

text \<open>
  The claim as it stands fails where the token is nested: in \<open>**x**\<close> with \<open>x\<close> selected
  and the token \<open>*\<close>, both applications unwrap and \<open>x\<close> is left. It fails for the
  selection where the first application strips the tokens inside the selection: from
  \<open>**hi**\<close>, all of it selected, the text comes back with the selection \<open>{2, 4}\<close>, not
  \<open>{0, 6}\<close>.
\<close>

theorem toggleWrap_round_trip_counterexample:
  "toggleWrapAgain (toggleWrap ''**x**'' 2 3 ''*'') ''*''
     = \<lparr>res_text = ''x'', selection = \<lparr>sel_start = 0, sel_end = 1\<rparr>\<rparr>
   \<and> toggleWrapAgain (toggleWrap ''**x**'' 2 3 ''*'') ''*''
     \<noteq> \<lparr>res_text = ''**x**'', selection = \<lparr>sel_start = 2, sel_end = 3\<rparr>\<rparr>
   \<and> toggleWrapAgain (toggleWrap ''**hi**'' 0 6 ''**'') ''**''
     = \<lparr>res_text = ''**hi**'', selection = \<lparr>sel_start = 2, sel_end = 4\<rparr>\<rparr>"
  by (simp add: toggleWrapAgain_def toggleWrap_def slice_def slice_from_def endsWith_def
      startsWith_def)

section \<open>Lines: split and join\<close>

lemma split_nonempty: "split s c \<noteq> []"
  by (induction s) (auto split: list.splits)

lemma join_split: "join (split s c) c = s"
proof (induction s)
  case Nil
  then show ?case by simp
next
  case (Cons x xs)
  obtain l ls where sp: "split xs c = l # ls"
    using split_nonempty [of xs c] by (cases "split xs c") auto
  show ?case
  proof (cases "x = c")
    case True
    with Cons sp show ?thesis by simp
  next
    case False
    with Cons sp show ?thesis by (cases ls) auto
  qed
qed

lemma split_no_sep: "l \<in> set (split s c) \<Longrightarrow> c \<notin> set l"
proof (induction s arbitrary: l)
  case Nil
  then show ?case by simp
next
  case (Cons x xs)
  obtain k ks where sp: "split xs c = k # ks"
    using split_nonempty [of xs c] by (cases "split xs c") auto
  show ?case
  proof (cases "x = c")
    case True
    with Cons sp show ?thesis by auto
  next
    case False
    with Cons.prems sp have "l = x # k \<or> l \<in> set ks" by auto
    with False Cons.IH sp show ?thesis by auto
  qed
qed

lemma split_no_sep_id: "c \<notin> set l \<Longrightarrow> split l c = [l]"
  by (induction l) auto

lemma split_append_sep:
  "c \<notin> set l \<Longrightarrow> split (l @ c # s) c = l # split s c"
  by (induction l) auto

lemma split_join:
  "ls \<noteq> [] \<Longrightarrow> (\<And>l. l \<in> set ls \<Longrightarrow> c \<notin> set l) \<Longrightarrow> split (join ls c) c = ls"
proof (induction ls c rule: join.induct)
  case (1 c)
  then show ?case by simp
next
  case (2 l c)
  then show ?case by (simp add: split_no_sep_id)
next
  case (3 l l' ls c)
  then show ?case by (simp add: split_append_sep)
qed

lemma length_join:
  "ls \<noteq> [] \<Longrightarrow> length (join ls c) = sum_list (map length ls) + (length ls - 1)"
  by (induction ls c rule: join.induct) auto


lemma dropWhile_neq_head: "dropWhile (\<lambda>x. x \<noteq> c) xs = [] \<or> hd (dropWhile (\<lambda>x. x \<noteq> c) xs) = c"
  using hd_dropWhile [of "\<lambda>x. x \<noteq> c" xs] by auto

lemma lastIndexOf_at_line_start:
  assumes "B = [] \<or> last B = c"
    and "B = [] \<longrightarrow> M = [] \<or> hd M \<noteq> c"
  shows "lastIndexOf (B @ M) c (int (length B) - 1) + 1 = int (length B)"
proof (cases "B = []")
  case True
  with assms(2) show ?thesis
    by (cases M) (auto simp: lastIndexOf_def Let_def)
next
  case False
  with assms(1) have l: "last B = c" by simp
  from False have k: "min (max (int (length B) - 1) 0) (int (length (B @ M)) - 1) = int (length B) - 1"
    by (cases B) auto
  from False have pre: "take (nat (int (length B) - 1 + 1)) (B @ M) = B"
    by simp
  from False l have "hd (rev B) = c" by (simp add: hd_rev)
  with False have tw: "takeWhile (\<lambda>x. x \<noteq> c) (rev B) = []"
    by (cases "rev B") auto
  from False l have "c \<in> set B" using last_in_set by metis
  then show ?thesis
    unfolding lastIndexOf_def Let_def k pre by (simp add: tw)
qed

lemma indexOf_at_line_end:
  assumes "A = [] \<or> hd A = c"
  shows "(if indexOf (B @ S @ A) c (int (length B) + int (length S)) = - 1
          then int (length (B @ S @ A))
          else indexOf (B @ S @ A) c (int (length B) + int (length S)))
         = int (length B) + int (length S)"
proof -
  have k: "nat (min (max (int (length B) + int (length S)) 0) (int (length (B @ S @ A))))
      = length B + length S"
    by (simp add: nat_add_distrib)
  have rest: "drop (length B + length S) (B @ S @ A) = A"
    by simp
  show ?thesis
  proof (cases A)
    case Nil
    then show ?thesis
      unfolding indexOf_def Let_def k rest by simp
  next
    case (Cons a as)
    with assms have "a = c" by simp
    with Cons show ?thesis
      unfolding indexOf_def Let_def k rest by simp
  qed
qed

lemma indexOf_forward:
  assumes "0 \<le> end" and "end \<le> int (length text)"
  shows "(if indexOf text c end = - 1 then int (length text) else indexOf text c end)
         = end + int (length (takeWhile (\<lambda>x. x \<noteq> c) (drop (nat end) text)))"
proof -
  have k: "nat (min (max end 0) (int (length text))) = nat end"
    using assms by simp
  show ?thesis
  proof (cases "c \<in> set (drop (nat end) text)")
    case True
    then show ?thesis
      using assms unfolding indexOf_def Let_def k by simp
  next
    case False
    then have tw: "takeWhile (\<lambda>x. x \<noteq> c) (drop (nat end) text) = drop (nat end) text"
      by auto
    from False show ?thesis
      using assms unfolding indexOf_def Let_def k tw by simp
  qed
qed

lemma lastIndexOf_backward:
  assumes "1 \<le> start" and "start \<le> int (length text)"
  shows "lastIndexOf text c (start - 1) + 1
         = int (length (dropWhile (\<lambda>x. x \<noteq> c) (rev (take (nat start) text))))"
proof -
  have k: "min (max (start - 1) 0) (int (length text) - 1) = start - 1"
    using assms by simp
  have pre: "take (nat (start - 1 + 1)) text = take (nat start) text"
    by simp
  let ?P = "take (nat start) text"
  have len: "length (takeWhile (\<lambda>x. x \<noteq> c) (rev ?P)) + length (dropWhile (\<lambda>x. x \<noteq> c) (rev ?P))
      = length ?P"
    by (metis length_append length_rev takeWhile_dropWhile_id)
  show ?thesis
  proof (cases "c \<in> set ?P")
    case True
    then show ?thesis
      unfolding lastIndexOf_def Let_def k pre using len by simp
  next
    case False
    then have "dropWhile (\<lambda>x. x \<noteq> c) (rev ?P) = []"
      by auto
    with False show ?thesis
      unfolding lastIndexOf_def Let_def k pre by simp
  qed
qed

lemma lastIndexOf_minus_one:
  "lastIndexOf text c (- 1) + 1 = (if startsWith text [c] then 1 else 0)"
  by (cases "text") (auto simp: lastIndexOf_def Let_def startsWith_def)


lemma block_region:
  assumes b: "0 \<le> start" "start \<le> end" "end \<le> int (length text)"
    and ng: "\<not> (start = 0 \<and> end = 0 \<and> startsWith text [c])"
  obtains B S A where "text = B @ S @ A"
    and "lastIndexOf text c (start - 1) + 1 = int (length B)"
    and "(if indexOf text c end = - 1 then int (length text) else indexOf text c end)
         = int (length B) + int (length S)"
    and "B = [] \<or> last B = c" and "A = [] \<or> hd A = c"
    and "B = [] \<longrightarrow> text = [] \<or> hd text \<noteq> c"
proof -
  define ls where "ls = lastIndexOf text c (start - 1) + 1"
  define ae where "ae = (if indexOf text c end = - 1 then int (length text)
                         else indexOf text c end)"
  let ?R = "drop (nat end) text"
  have ae: "ae = end + int (length (takeWhile (\<lambda>x. x \<noteq> c) ?R))"
    unfolding ae_def using b by (intro indexOf_forward) auto
  have "length (takeWhile (\<lambda>x. x \<noteq> c) ?R) \<le> length ?R"
    by (rule length_takeWhile_le)
  then have ae_le: "ae \<le> int (length text)" and ae_ge: "end \<le> ae"
    using b ae by auto
  have "drop (nat ae) text = drop (length (takeWhile (\<lambda>x. x \<noteq> c) ?R)) ?R"
    using b ae by (simp add: nat_add_distrib add.commute)
  then have A_eq: "drop (nat ae) text = dropWhile (\<lambda>x. x \<noteq> c) ?R"
    by (simp add: dropWhile_eq_drop)
  have A_hd: "drop (nat ae) text = [] \<or> hd (drop (nat ae) text) = c"
    unfolding A_eq by (rule dropWhile_neq_head)
  have ls_facts: "0 \<le> ls \<and> ls \<le> ae
      \<and> (take (nat ls) text = [] \<or> last (take (nat ls) text) = c)
      \<and> (take (nat ls) text = [] \<longrightarrow> text = [] \<or> hd text \<noteq> c)"
  proof (cases "start = 0")
    case True
    then have ls0: "ls = (if startsWith text [c] then 1 else 0)"
      by (simp add: ls_def lastIndexOf_minus_one)
    show ?thesis
    proof (cases "startsWith text [c]")
      case sw: True
      then obtain rest where t: "text = c # rest"
        by (cases "text") (auto simp: startsWith_def)
      from sw True ng b have "1 \<le> end" by auto
      with sw ls0 ae_ge t show ?thesis by simp
    next
      case False
      then have "text = [] \<or> hd text \<noteq> c"
        by (cases "text") (auto simp: startsWith_def)
      with False ls0 b ae_ge show ?thesis by simp
    qed
  next
    case False
    with b have s1: "1 \<le> start" by simp
    let ?P = "take (nat start) text"
    let ?D = "dropWhile (\<lambda>x. x \<noteq> c) (rev ?P)"
    let ?T = "takeWhile (\<lambda>x. x \<noteq> c) (rev ?P)"
    have ls: "ls = int (length ?D)"
      unfolding ls_def using s1 b by (intro lastIndexOf_backward) auto
    have "length ?D \<le> length (rev ?P)"
      by (rule length_dropWhile_le)
    then have dle: "length ?D \<le> nat start"
      by simp
    have "rev ?P = ?T @ ?D" by simp
    then have P: "?P = rev ?D @ rev ?T"
      by (metis rev_append rev_rev_ident)
    have "take (length ?D) text = take (length ?D) ?P"
      using dle by (simp add: min_def)
    also have "\<dots> = rev ?D"
      by (subst P) simp
    finally have B: "take (nat ls) text = rev ?D"
      by (simp add: ls)
    have hdD: "?D = [] \<or> hd ?D = c"
      by (rule dropWhile_neq_head)
    have c1: "take (nat ls) text = [] \<or> last (take (nat ls) text) = c"
      unfolding B using hdD by (auto simp: last_rev)
    have c2: "take (nat ls) text = [] \<longrightarrow> text = [] \<or> hd text \<noteq> c"
    proof
      assume "take (nat ls) text = []"
      then have "?D = []" by (simp add: B)
      then have "c \<notin> set ?P" by auto
      moreover from s1 b have "text \<noteq> []" by auto
      then have "hd text \<in> set ?P"
        using s1 by (cases "text") (auto simp: take_Cons')
      ultimately show "text = [] \<or> hd text \<noteq> c" by auto
    qed
    from ls dle b ae_ge have "0 \<le> ls \<and> ls \<le> ae" by auto
    with c1 c2 show ?thesis by simp
  qed
  let ?B = "take (nat ls) text"
  let ?S = "take (nat ae - nat ls) (drop (nat ls) text)"
  let ?A = "drop (nat ae) text"
  from ls_facts have l0: "0 \<le> ls" and l1: "ls \<le> ae" by auto
  have t: "text = ?B @ ?S @ ?A"
    using l0 l1 by (simp add: take_drop_glue)
  have lb: "ls = int (length ?B)"
    using l0 l1 ae_le by simp
  have la: "ae = int (length ?B) + int (length ?S)"
    using l0 l1 ae_le by auto
  show ?thesis
  proof (rule that [of ?B ?S ?A])
    show "text = ?B @ ?S @ ?A" by (rule t)
    show "lastIndexOf text c (start - 1) + 1 = int (length ?B)"
      using lb by (simp add: ls_def)
    show "(if indexOf text c end = - 1 then int (length text) else indexOf text c end)
         = int (length ?B) + int (length ?S)"
      using la by (simp add: ae_def)
    show "?B = [] \<or> last ?B = c" using ls_facts by simp
    show "?A = [] \<or> hd ?A = c" by (rule A_hd)
    show "?B = [] \<longrightarrow> text = [] \<or> hd text \<noteq> c" using ls_facts by simp
  qed
qed

section \<open>toggleBlockPrefix on the widened region\<close>

lemma toggleBlockPrefix_parts:
  assumes "lastIndexOf (B @ S @ A) CHR ''\<newline>'' (start - 1) + 1 = int (length B)"
    and "(if indexOf (B @ S @ A) CHR ''\<newline>'' end = - 1 then int (length (B @ S @ A))
          else indexOf (B @ S @ A) CHR ''\<newline>'' end) = int (length B) + int (length S)"
  shows "toggleBlockPrefix (B @ S @ A) start end prefix =
     (if allHavePrefix prefix (split S CHR ''\<newline>'') then
        \<lparr>res_text = B @ join (map (stripLine prefix) (split S CHR ''\<newline>'')) CHR ''\<newline>'' @ A,
         selection = \<lparr>sel_start = int (length B),
            sel_end = int (length B) + int (length S)
              + - int (length (prefix @ '' ''))
                * int (length (filter (\<lambda>l. startsWith l (prefix @ '' ''))
                                 (split S CHR ''\<newline>'')))\<rparr>\<rparr>
      else
        \<lparr>res_text = B @ join (map (addLine prefix) (split S CHR ''\<newline>'')) CHR ''\<newline>'' @ A,
         selection = \<lparr>sel_start = int (length B),
            sel_end = int (length B) + int (length S)
              + int (length (prefix @ '' ''))
                * int (length (filter (\<lambda>l. \<not> (trim l = []))
                                 (split S CHR ''\<newline>'')))\<rparr>\<rparr>)"
  unfolding toggleBlockPrefix_def Let_def assms
  unfolding parts_before parts_selected parts_after
  by (simp add: allHavePrefix_def stripLine_def[abs_def] addLine_def[abs_def])

lemma blockLines_parts:
  assumes "lastIndexOf (B @ S @ A) CHR ''\<newline>'' (start - 1) + 1 = int (length B)"
    and "(if indexOf (B @ S @ A) CHR ''\<newline>'' end = - 1 then int (length (B @ S @ A))
          else indexOf (B @ S @ A) CHR ''\<newline>'' end) = int (length B) + int (length S)"
  shows "blockLines (B @ S @ A) start end = split S CHR ''\<newline>''"
  unfolding blockLines_def Let_def assms
  unfolding parts_selected
  by simp

lemma startsWith_length: "startsWith l p \<Longrightarrow> length p \<le> length l"
  by (metis startsWith_def length_take min.cobounded1)

lemma length_stripLine:
  "length (stripLine prefix l) + (if startsWith l (prefix @ '' '') then length (prefix @ '' '') else 0)
   = length l"
  using startsWith_length [of l "prefix @ '' ''"]
  by (simp add: stripLine_def slice_from_nat del: length_append)

lemma length_addLine:
  "length (addLine prefix l)
   = length l + (if trim l = [] then 0 else length (prefix @ '' ''))"
  by (simp add: addLine_def)

lemma sum_stripLine:
  "sum_list (map length (map (stripLine prefix) ls))
     + length (prefix @ '' '') * length (filter (\<lambda>l. startsWith l (prefix @ '' '')) ls)
   = sum_list (map length ls)"
proof (induction ls)
  case Nil
  then show ?case by simp
next
  case (Cons l ls)
  then show ?case
    using length_stripLine [of prefix l]
    by (cases "startsWith l (prefix @ '' '')") (simp_all del: length_append)
qed

lemma sum_addLine:
  "sum_list (map length (map (addLine prefix) ls))
   = sum_list (map length ls)
     + length (prefix @ '' '') * length (filter (\<lambda>l. \<not> (trim l = [])) ls)"
  by (induction ls) (simp_all add: length_addLine del: length_append)

lemma length_join_split: "length S = sum_list (map length (split S c)) + (length (split S c) - 1)"
  using length_join [of "split S c" c] split_nonempty [of S c] by (simp add: join_split)

lemma length_join_strip:
  "int (length (join (map (stripLine prefix) (split S c)) c))
   = int (length S)
     + - int (length (prefix @ '' ''))
       * int (length (filter (\<lambda>l. startsWith l (prefix @ '' '')) (split S c)))"
proof -
  have "length (join (map (stripLine prefix) (split S c)) c)
        = sum_list (map length (map (stripLine prefix) (split S c))) + (length (split S c) - 1)"
    using length_join [of "map (stripLine prefix) (split S c)" c] split_nonempty [of S c]
    by simp
  moreover have "int (sum_list (map length (map (stripLine prefix) (split S c))))
      + int (length (prefix @ '' ''))
        * int (length (filter (\<lambda>l. startsWith l (prefix @ '' '')) (split S c)))
      = int (sum_list (map length (split S c)))"
    using sum_stripLine [of prefix "split S c"] by (metis of_nat_add of_nat_mult)
  ultimately show ?thesis
    using length_join_split [of S c] by (simp del: length_append map_map)
qed

lemma length_join_add:
  "int (length (join (map (addLine prefix) (split S c)) c))
   = int (length S)
     + int (length (prefix @ '' ''))
       * int (length (filter (\<lambda>l. \<not> (trim l = [])) (split S c)))"
proof -
  have "length (join (map (addLine prefix) (split S c)) c)
        = sum_list (map length (map (addLine prefix) (split S c))) + (length (split S c) - 1)"
    using length_join [of "map (addLine prefix) (split S c)" c] split_nonempty [of S c]
    by simp
  then show ?thesis
    using sum_addLine [of prefix "split S c"] length_join_split [of S c]
    by (simp del: length_append map_map)
qed

lemma trim_empty_iff: "trim s = [] \<longleftrightarrow> list_all isWhiteSpace s"
proof
  assume "trim s = []"
  then have a: "list_all isWhiteSpace (dropWhile isWhiteSpace s)"
    by (simp add: trim_def list_all_iff)
  have "dropWhile isWhiteSpace s = []"
  proof (rule ccontr)
    assume n: "dropWhile isWhiteSpace s \<noteq> []"
    then have "\<not> isWhiteSpace (hd (dropWhile isWhiteSpace s))"
      by (rule hd_dropWhile)
    moreover from n a have "isWhiteSpace (hd (dropWhile isWhiteSpace s))"
      by (cases "dropWhile isWhiteSpace s") auto
    ultimately show False by simp
  qed
  then show "list_all isWhiteSpace s"
    by (simp add: list_all_iff)
next
  assume "list_all isWhiteSpace s"
  then show "trim s = []"
    by (auto simp: trim_def list_all_iff dest: set_dropWhileD)
qed

lemma stripLine_drop:
  "stripLine prefix l
   = (if startsWith l (prefix @ '' '') then drop (length (prefix @ '' '')) l else l)"
  by (simp only: stripLine_def slice_from_nat)

lemma startsWith_set: "startsWith l p \<Longrightarrow> set p \<subseteq> set l"
  by (metis startsWith_def set_take_subset)

lemma blank_not_prefixed:
  assumes "\<not> list_all isWhiteSpace prefix" and "trim l = []"
  shows "\<not> startsWith l (prefix @ '' '')"
proof
  assume "startsWith l (prefix @ '' '')"
  then have "set prefix \<subseteq> set l"
    using startsWith_set by fastforce
  moreover from assms(2) have "list_all isWhiteSpace l"
    by (simp add: trim_empty_iff)
  ultimately have "list_all isWhiteSpace prefix"
    by (auto simp: list_all_iff)
  with assms(1) show False by simp
qed

lemma strip_add:
  assumes "trim l = [] \<longrightarrow> \<not> startsWith l (prefix @ '' '')"
  shows "stripLine prefix (addLine prefix l) = l"
proof (cases "trim l = []")
  case True
  with assms show ?thesis by (simp add: stripLine_def addLine_def)
next
  case False
  have "slice_from ((prefix @ '' '') @ l) (int (length (prefix @ '' ''))) = l"
    unfolding slice_from_nat by simp
  with False show ?thesis
    by (simp add: stripLine_def addLine_def startsWith_def)
qed

lemma add_qualifies:
  "startsWith (addLine prefix l) (prefix @ '' '') \<or> trim (addLine prefix l) = []"
  by (cases "trim l = []") (simp_all add: addLine_def startsWith_def)

lemma allHavePrefix_add: "allHavePrefix prefix (map (addLine prefix) ls)"
  using add_qualifies by (simp add: allHavePrefix_def list_all_iff)

lemma add_strip:
  assumes "startsWith l (prefix @ '' '') \<or> trim l = []"
    and "startsWith l (prefix @ '' '') \<longrightarrow> trim (stripLine prefix l) \<noteq> []"
  shows "addLine prefix (stripLine prefix l) = l"
proof (cases "startsWith l (prefix @ '' '')")
  case True
  then have "l = (prefix @ '' '') @ drop (length (prefix @ '' '')) l"
    by (rule startsWith_split)
  moreover from True have "stripLine prefix l = drop (length (prefix @ '' '')) l"
    by (simp only: stripLine_drop if_True)
  moreover from True assms(2) have "trim (stripLine prefix l) \<noteq> []" by simp
  ultimately show ?thesis
    by (simp add: addLine_def del: append_assoc)
next
  case False
  with assms(1) show ?thesis
    by (simp add: stripLine_def addLine_def)
qed

lemma addLine_no_sep:
  "c \<notin> set prefix \<Longrightarrow> c \<noteq> CHR '' '' \<Longrightarrow> c \<notin> set l \<Longrightarrow> c \<notin> set (addLine prefix l)"
  by (simp add: addLine_def)

lemma stripLine_no_sep: "c \<notin> set l \<Longrightarrow> c \<notin> set (stripLine prefix l)"
  by (auto simp: stripLine_drop dest: in_set_dropD)

lemma hd_join: "l \<noteq> [] \<Longrightarrow> hd (join (l # ls) c @ A) = hd l"
  by (cases ls) simp_all

lemma head_preserved:
  assumes h: "S @ A = [] \<or> hd (S @ A) \<noteq> c"
    and f: "\<And>l. l \<in> set (split S c) \<Longrightarrow> l \<noteq> [] \<Longrightarrow> f l \<noteq> [] \<and> hd (f l) \<noteq> c"
    and e: "f [] = []"
  shows "join (map f (split S c)) c @ A = [] \<or> hd (join (map f (split S c)) c @ A) \<noteq> c"
proof -
  obtain l ls where sp: "split S c = l # ls"
    using split_nonempty [of S c] by (cases "split S c") auto
  have S: "S = join (l # ls) c"
    using join_split [of S c] sp by simp
  show ?thesis
  proof (cases "l = []")
    case True
    show ?thesis
    proof (cases ls)
      case Nil
      with True S e h sp show ?thesis by simp
    next
      case (Cons k ks)
      with True S have "hd (S @ A) = c \<and> S @ A \<noteq> []" by simp
      with h show ?thesis by simp
    qed
  next
    case False
    with f [of l] sp have "f l \<noteq> [] \<and> hd (f l) \<noteq> c" by simp
    then show ?thesis
      using hd_join [of "f l" "map f ls" c A] by (simp add: sp)
  qed
qed

lemma toggleBlockPrefix_at_region:
  assumes "B = [] \<or> last B = CHR ''\<newline>''"
    and "A = [] \<or> hd A = CHR ''\<newline>''"
    and "B = [] \<longrightarrow> S @ A = [] \<or> hd (S @ A) \<noteq> CHR ''\<newline>''"
  shows "toggleBlockPrefix (B @ S @ A) (int (length B)) (int (length B) + int (length S)) prefix =
     (if allHavePrefix prefix (split S CHR ''\<newline>'') then
        \<lparr>res_text = B @ join (map (stripLine prefix) (split S CHR ''\<newline>'')) CHR ''\<newline>'' @ A,
         selection = \<lparr>sel_start = int (length B),
            sel_end = int (length B)
              + int (length (join (map (stripLine prefix) (split S CHR ''\<newline>''))
                               CHR ''\<newline>''))\<rparr>\<rparr>
      else
        \<lparr>res_text = B @ join (map (addLine prefix) (split S CHR ''\<newline>'')) CHR ''\<newline>'' @ A,
         selection = \<lparr>sel_start = int (length B),
            sel_end = int (length B)
              + int (length (join (map (addLine prefix) (split S CHR ''\<newline>''))
                               CHR ''\<newline>''))\<rparr>\<rparr>)"
proof -
  have 1: "lastIndexOf (B @ S @ A) CHR ''\<newline>'' (int (length B) - 1) + 1 = int (length B)"
    using assms(1,3) by (rule lastIndexOf_at_line_start)
  have 2: "(if indexOf (B @ S @ A) CHR ''\<newline>'' (int (length B) + int (length S)) = - 1
         then int (length (B @ S @ A))
         else indexOf (B @ S @ A) CHR ''\<newline>'' (int (length B) + int (length S)))
      = int (length B) + int (length S)"
    using assms(2) by (rule indexOf_at_line_end)
  show ?thesis
    unfolding toggleBlockPrefix_parts [OF 1 2] length_join_strip length_join_add
    by simp
qed

lemma toggleBlockPrefix_region:
  assumes b: "0 \<le> start" "start \<le> end" "end \<le> int (length text)"
    and ng: "\<not> (start = 0 \<and> end = 0 \<and> startsWith text ''\<newline>'')"
  obtains B S A where "text = B @ S @ A"
    and "blockLines text start end = split S CHR ''\<newline>''"
    and "toggleBlockPrefix text start end prefix
         = toggleBlockPrefix (B @ S @ A) (int (length B)) (int (length B) + int (length S)) prefix"
    and "B = [] \<or> last B = CHR ''\<newline>''"
    and "A = [] \<or> hd A = CHR ''\<newline>''"
    and "B = [] \<longrightarrow> S @ A = [] \<or> hd (S @ A) \<noteq> CHR ''\<newline>''"
proof -
  from b ng obtain B S A where t: "text = B @ S @ A"
    and 1: "lastIndexOf text CHR ''\<newline>'' (start - 1) + 1 = int (length B)"
    and 2: "(if indexOf text CHR ''\<newline>'' end = - 1 then int (length text)
             else indexOf text CHR ''\<newline>'' end) = int (length B) + int (length S)"
    and B: "B = [] \<or> last B = CHR ''\<newline>''" and A: "A = [] \<or> hd A = CHR ''\<newline>''"
    and h: "B = [] \<longrightarrow> text = [] \<or> hd text \<noteq> CHR ''\<newline>''"
    by (rule block_region)
  from h t have h': "B = [] \<longrightarrow> S @ A = [] \<or> hd (S @ A) \<noteq> CHR ''\<newline>''"
    by auto
  have "toggleBlockPrefix (B @ S @ A) start end prefix
        = toggleBlockPrefix (B @ S @ A) (int (length B)) (int (length B) + int (length S)) prefix"
    unfolding toggleBlockPrefix_parts [OF 1 [unfolded t] 2 [unfolded t]]
      toggleBlockPrefix_at_region [OF B A h'] length_join_strip length_join_add
    by simp
  moreover have "blockLines (B @ S @ A) start end = split S CHR ''\<newline>''"
    using 1 [unfolded t] 2 [unfolded t] by (rule blockLines_parts)
  ultimately show ?thesis
    using that [of B S A] t B A h' by simp
qed

lemma blockLines_glitch:
  assumes "startsWith text ''\<newline>''"
  shows "blockLines text 0 0 = [[]]"
proof -
  from assms obtain rest where t: "text = CHR ''\<newline>'' # rest"
    by (cases "text") (auto simp: startsWith_def)
  show ?thesis
    unfolding t by (simp add: blockLines_def lastIndexOf_def indexOf_def slice_def Let_def)
qed

lemma allHavePrefix_blank: "allHavePrefix prefix [[]]"
  by (simp add: allHavePrefix_def trim_def)

lemma stripLine_empty: "stripLine prefix [] = []"
  by (simp add: stripLine_def startsWith_def)

lemma add_lines_no_sep:
  assumes "c \<notin> set prefix" and "c \<noteq> CHR '' ''"
    and "l \<in> set (map (addLine prefix) (split S c))"
  shows "c \<notin> set l"
proof -
  from assms(3) obtain k where k: "k \<in> set (split S c)" and l: "l = addLine prefix k"
    by auto
  from k have "c \<notin> set k" by (rule split_no_sep)
  with assms(1,2) show ?thesis
    unfolding l by (rule addLine_no_sep)
qed

lemma strip_lines_no_sep:
  assumes "l \<in> set (map (stripLine prefix) (split S c))"
  shows "c \<notin> set l"
proof -
  from assms obtain k where k: "k \<in> set (split S c)" and l: "l = stripLine prefix k"
    by auto
  from k have "c \<notin> set k" by (rule split_no_sep)
  then show ?thesis
    unfolding l by (rule stripLine_no_sep)
qed

lemma hd_not_sep:
  assumes "l \<in> set (split S c)" and "l \<noteq> []"
  shows "hd l \<noteq> c"
proof -
  from assms(1) have "c \<notin> set l" by (rule split_no_sep)
  with assms(2) show ?thesis by (cases l) auto
qed

lemma addLine_empty: "addLine prefix [] = []"
  by (simp add: addLine_def trim_def)

lemma add_then_strip:
  assumes b: "0 \<le> start" "start \<le> end" "end \<le> int (length text)"
    and adds: "\<not> allHavePrefix prefix (blockLines text start end)"
    and nnl: "CHR ''\<newline>'' \<notin> set prefix"
    and nb: "list_all (\<lambda>l. \<not> (trim l = [] \<and> startsWith l (prefix @ '' '')))
               (blockLines text start end)"
  shows "res_text (toggleBlockPrefixAgain (toggleBlockPrefix text start end prefix) prefix) = text"
proof -
  have ng: "\<not> (start = 0 \<and> end = 0 \<and> startsWith text ''\<newline>'')"
    using adds blockLines_glitch [of "text"] allHavePrefix_blank by auto
  from b ng obtain B S A where t: "text = B @ S @ A"
    and ls: "blockLines text start end = split S CHR ''\<newline>''"
    and r: "toggleBlockPrefix text start end prefix
         = toggleBlockPrefix (B @ S @ A) (int (length B)) (int (length B) + int (length S)) prefix"
    and B: "B = [] \<or> last B = CHR ''\<newline>''"
    and A: "A = [] \<or> hd A = CHR ''\<newline>''"
    and h: "B = [] \<longrightarrow> S @ A = [] \<or> hd (S @ A) \<noteq> CHR ''\<newline>''"
    by (rule toggleBlockPrefix_region)
  let ?lines = "split S CHR ''\<newline>''"
  let ?S' = "join (map (addLine prefix) ?lines) CHR ''\<newline>''"
  have r1: "toggleBlockPrefix text start end prefix
      = \<lparr>res_text = B @ ?S' @ A,
         selection = \<lparr>sel_start = int (length B),
                      sel_end = int (length B) + int (length ?S')\<rparr>\<rparr>"
    unfolding r toggleBlockPrefix_at_region [OF B A h] using adds ls by simp
  have nosep: "\<And>l. l \<in> set (map (addLine prefix) ?lines) \<Longrightarrow> CHR ''\<newline>'' \<notin> set l"
    using nnl by (rule add_lines_no_sep [of _ prefix]) auto
  have sp: "split ?S' CHR ''\<newline>'' = map (addLine prefix) ?lines"
    by (rule split_join) (use nosep split_nonempty [of S "CHR ''\<newline>''"] in auto)
  have h': "B = [] \<longrightarrow> ?S' @ A = [] \<or> hd (?S' @ A) \<noteq> CHR ''\<newline>''"
  proof
    assume "B = []"
    with h have "S @ A = [] \<or> hd (S @ A) \<noteq> CHR ''\<newline>''" by simp
    then show "?S' @ A = [] \<or> hd (?S' @ A) \<noteq> CHR ''\<newline>''"
    proof (rule head_preserved)
      fix l assume "l \<in> set ?lines" and "l \<noteq> []"
      then have "hd l \<noteq> CHR ''\<newline>''"
        by (rule hd_not_sep)
      with \<open>l \<noteq> []\<close> nnl show "addLine prefix l \<noteq> [] \<and> hd (addLine prefix l) \<noteq> CHR ''\<newline>''"
        by (cases prefix) (auto simp: addLine_def)
    next
      show "addLine prefix [] = []" by (rule addLine_empty)
    qed
  qed
  have restored: "map (stripLine prefix) (map (addLine prefix) ?lines) = ?lines"
  proof -
    have "\<And>l. l \<in> set ?lines \<Longrightarrow> stripLine prefix (addLine prefix l) = l"
      by (rule strip_add) (use nb ls in \<open>auto simp: list_all_iff\<close>)
    then show ?thesis
      by (simp add: map_idI)
  qed
  have again: "toggleBlockPrefixAgain (toggleBlockPrefix text start end prefix) prefix
        = toggleBlockPrefix (B @ ?S' @ A) (int (length B)) (int (length B) + int (length ?S')) prefix"
    by (simp add: toggleBlockPrefixAgain_def r1)
  have "res_text (toggleBlockPrefix (B @ ?S' @ A) (int (length B))
                   (int (length B) + int (length ?S')) prefix)
        = B @ join ?lines CHR ''\<newline>'' @ A"
    unfolding toggleBlockPrefix_at_region [OF B A h'] sp
    using allHavePrefix_add [of prefix ?lines] restored by simp
  then have "res_text (toggleBlockPrefix (B @ ?S' @ A) (int (length B))
                   (int (length B) + int (length ?S')) prefix) = text"
    by (simp only: join_split t)
  then show ?thesis
    by (simp only: again)
qed

lemma strip_then_add:
  assumes b: "0 \<le> start" "start \<le> end" "end \<le> int (length text)"
    and strips: "allHavePrefix prefix (blockLines text start end)"
    and adds: "\<not> allHavePrefix prefix (map (stripLine prefix) (blockLines text start end))"
    and nb: "list_all (\<lambda>l. \<not> (startsWith l (prefix @ '' '') \<and> trim (stripLine prefix l) = []))
               (blockLines text start end)"
  shows "res_text (toggleBlockPrefixAgain (toggleBlockPrefix text start end prefix) prefix) = text"
proof -
  have ng: "\<not> (start = 0 \<and> end = 0 \<and> startsWith text ''\<newline>'')"
    using adds blockLines_glitch [of "text"] allHavePrefix_blank [of prefix]
    by (auto simp: stripLine_empty)
  from b ng obtain B S A where t: "text = B @ S @ A"
    and ls: "blockLines text start end = split S CHR ''\<newline>''"
    and r: "toggleBlockPrefix text start end prefix
         = toggleBlockPrefix (B @ S @ A) (int (length B)) (int (length B) + int (length S)) prefix"
    and B: "B = [] \<or> last B = CHR ''\<newline>''"
    and A: "A = [] \<or> hd A = CHR ''\<newline>''"
    and h: "B = [] \<longrightarrow> S @ A = [] \<or> hd (S @ A) \<noteq> CHR ''\<newline>''"
    by (rule toggleBlockPrefix_region)
  let ?lines = "split S CHR ''\<newline>''"
  let ?S' = "join (map (stripLine prefix) ?lines) CHR ''\<newline>''"
  have r1: "toggleBlockPrefix text start end prefix
      = \<lparr>res_text = B @ ?S' @ A,
         selection = \<lparr>sel_start = int (length B),
                      sel_end = int (length B) + int (length ?S')\<rparr>\<rparr>"
    unfolding r toggleBlockPrefix_at_region [OF B A h] using strips ls by simp
  have nosep: "\<And>l. l \<in> set (map (stripLine prefix) ?lines) \<Longrightarrow> CHR ''\<newline>'' \<notin> set l"
    by (rule strip_lines_no_sep)
  have sp: "split ?S' CHR ''\<newline>'' = map (stripLine prefix) ?lines"
    by (rule split_join) (use nosep split_nonempty [of S "CHR ''\<newline>''"] in auto)
  have h': "B = [] \<longrightarrow> ?S' @ A = [] \<or> hd (?S' @ A) \<noteq> CHR ''\<newline>''"
  proof
    assume "B = []"
    with h have "S @ A = [] \<or> hd (S @ A) \<noteq> CHR ''\<newline>''" by simp
    then show "?S' @ A = [] \<or> hd (?S' @ A) \<noteq> CHR ''\<newline>''"
    proof (rule head_preserved)
      fix l assume l: "l \<in> set ?lines" and "l \<noteq> []"
      have n: "CHR ''\<newline>'' \<notin> set (stripLine prefix l)"
        by (rule strip_lines_no_sep [of _ prefix S]) (use l in simp)
      have "stripLine prefix l \<noteq> []"
      proof (cases "startsWith l (prefix @ '' '')")
        case True
        with nb ls l have "trim (stripLine prefix l) \<noteq> []"
          by (auto simp: list_all_iff)
        then show ?thesis by (auto simp: trim_def)
      next
        case False
        with \<open>l \<noteq> []\<close> show ?thesis by (simp add: stripLine_def)
      qed
      with n show "stripLine prefix l \<noteq> [] \<and> hd (stripLine prefix l) \<noteq> CHR ''\<newline>''"
        by (cases "stripLine prefix l") auto
    next
      show "stripLine prefix [] = []" by (rule stripLine_empty)
    qed
  qed
  have restored: "map (addLine prefix) (map (stripLine prefix) ?lines) = ?lines"
  proof -
    have "\<And>l. l \<in> set ?lines \<Longrightarrow> addLine prefix (stripLine prefix l) = l"
      by (rule add_strip) (use nb strips ls in \<open>auto simp: list_all_iff allHavePrefix_def\<close>)
    then show ?thesis
      by (simp add: map_idI)
  qed
  have again: "toggleBlockPrefixAgain (toggleBlockPrefix text start end prefix) prefix
        = toggleBlockPrefix (B @ ?S' @ A) (int (length B)) (int (length B) + int (length ?S')) prefix"
    by (simp add: toggleBlockPrefixAgain_def r1)
  have "res_text (toggleBlockPrefix (B @ ?S' @ A) (int (length B))
                   (int (length B) + int (length ?S')) prefix)
        = B @ join ?lines CHR ''\<newline>'' @ A"
    unfolding toggleBlockPrefix_at_region [OF B A h'] sp
    using adds ls restored by simp
  then have "res_text (toggleBlockPrefix (B @ ?S' @ A) (int (length B))
                   (int (length B) + int (length ?S')) prefix) = text"
    by (simp only: join_split t)
  then show ?thesis
    by (simp only: again)
qed

section \<open>toggleBlockPrefix twice\<close>

text \<open>
  Claim C9, as amended. For a selection inside the bounds of the text, apply
  \<open>toggleBlockPrefix\<close> and then apply it again, with the same prefix, to the text and
  the selection the first application returned. The original text comes back (i) when
  the first application adds the prefix (some line of the widened region is neither
  blank nor prefixed), the prefix holds no line feed and no blank line of the region
  starts with the prefix and a space; and (ii) when the first application strips the
  prefix (every line is blank or prefixed), provided the second one adds it again (some
  stripped line is neither blank nor prefixed) and no line is left blank by the
  stripping.
\<close>

theorem toggleBlockPrefix_twice:
  assumes "0 \<le> start" and "start \<le> end" and "end \<le> int (length text)"
  shows "(\<not> allHavePrefix prefix (blockLines text start end)
          \<and> CHR ''\<newline>'' \<notin> set prefix
          \<and> list_all (\<lambda>l. \<not> (trim l = [] \<and> startsWith l (prefix @ '' '')))
                (blockLines text start end)
          \<longrightarrow> res_text (toggleBlockPrefixAgain (toggleBlockPrefix text start end prefix) prefix)
              = text)
       \<and> (allHavePrefix prefix (blockLines text start end)
          \<and> \<not> allHavePrefix prefix (map (stripLine prefix) (blockLines text start end))
          \<and> list_all (\<lambda>l. \<not> (startsWith l (prefix @ '' '') \<and> trim (stripLine prefix l) = []))
                (blockLines text start end)
          \<longrightarrow> res_text (toggleBlockPrefixAgain (toggleBlockPrefix text start end prefix) prefix)
              = text)"
  using add_then_strip [OF assms, of prefix] strip_then_add [OF assms, of prefix]
  by blast

lemma ws_space [simp]: "isWhiteSpace CHR '' ''"
  by (simp add: isWhiteSpace_def)

lemma ws_nl [simp]: "isWhiteSpace CHR ''\<newline>''"
  by (simp add: isWhiteSpace_def)

lemma ws_gt [simp]: "\<not> isWhiteSpace CHR ''>''"
  by (simp add: isWhiteSpace_def)

lemma ws_a [simp]: "\<not> isWhiteSpace CHR ''a''"
  by (simp add: isWhiteSpace_def)

lemma ws_b [simp]: "\<not> isWhiteSpace CHR ''b''"
  by (simp add: isWhiteSpace_def)

theorem toggleBlockPrefix_twice_witness:
  "res_text (toggleBlockPrefixAgain (toggleBlockPrefix ''a\<newline>b'' 0 3 ''>'') ''>'') = ''a\<newline>b''
   \<and> res_text (toggleBlockPrefixAgain (toggleBlockPrefix ''> a\<newline>> b'' 0 7 ''>'') ''>'')
       = ''> a\<newline>> b''"
proof -
  have l1: "blockLines ''a\<newline>b'' 0 3 = [''a'', ''b'']"
    by (simp add: blockLines_def lastIndexOf_def indexOf_def slice_def Let_def)
  have l2: "blockLines ''> a\<newline>> b'' 0 7 = [''> a'', ''> b'']"
    by (simp add: blockLines_def lastIndexOf_def indexOf_def slice_def Let_def)
  have h1: "\<not> allHavePrefix ''>'' [''a'', ''b'']
      \<and> list_all (\<lambda>l. \<not> (trim l = [] \<and> startsWith l (''>'' @ '' ''))) [''a'', ''b'']"
    by (simp add: allHavePrefix_def startsWith_def trim_def)
  have h2: "allHavePrefix ''>'' [''> a'', ''> b'']
      \<and> \<not> allHavePrefix ''>'' (map (stripLine ''>'') [''> a'', ''> b''])
      \<and> list_all (\<lambda>l. \<not> (startsWith l (''>'' @ '' '') \<and> trim (stripLine ''>'' l) = []))
           [''> a'', ''> b'']"
    by (simp add: allHavePrefix_def stripLine_def startsWith_def trim_def slice_from_def slice_def)
  show ?thesis
    using toggleBlockPrefix_twice [of 0 3 "''a\<newline>b''" "''>''"]
      toggleBlockPrefix_twice [of 0 7 "''> a\<newline>> b''" "''>''"] h1 h2
    unfolding l1 l2 by simp
qed

text \<open>
  The claim as it stands, with the second application on the selection the first one
  was given: with \<open>a\<close> and \<open>b\<close> on two lines and the selection \<open>{0, 3}\<close> the first
  application prefixes both lines, and the second, on \<open>{0, 3}\<close> again, sees the first
  line only and strips it alone. On one line, a quote inside a quote loses both
  prefixes.
\<close>

theorem toggleBlockPrefix_twice_counterexample:
  "res_text (toggleBlockPrefix (res_text (toggleBlockPrefix ''a\<newline>b'' 0 3 ''>'')) 0 3 ''>'')
     = ''a\<newline>> b''
   \<and> res_text (toggleBlockPrefix (res_text (toggleBlockPrefix ''a\<newline>b'' 0 3 ''>'')) 0 3 ''>'')
     \<noteq> ''a\<newline>b''
   \<and> res_text (toggleBlockPrefix (res_text (toggleBlockPrefix ''> > a'' 0 0 ''>'')) 0 0 ''>'')
     = ''a''"
  by (simp add: toggleBlockPrefix_def lastIndexOf_def indexOf_def slice_def slice_from_def
      startsWith_def trim_def Let_def)

section \<open>The invariant of a WrapResult\<close>

text \<open>
  Where the functions of the engine keep the invariant
  \<open>selection.start \<le> selection.end \<le> length(text)\<close>: \<open>toggleWrap\<close> for a token that is
  not empty, \<open>toggleWrapAsymmetric\<close> for an opening token that is not empty,
  \<open>toggleBlockPrefix\<close> unless the selection is the caret at 0 of a text that starts
  with a line feed, and \<open>insertAt\<close>, \<open>toggleCodeBlock\<close> and \<open>insertMaskedLink\<close> always.
\<close>

lemma toggleBlockPrefix_wellFormed:
  assumes "0 \<le> start" and "start \<le> end" and "end \<le> int (length text)"
    and "\<not> (start = 0 \<and> end = 0 \<and> startsWith text ''\<newline>'')"
  shows "wellFormed (toggleBlockPrefix text start end prefix)"
proof -
  from assms obtain B S A where
    r: "toggleBlockPrefix text start end prefix
         = toggleBlockPrefix (B @ S @ A) (int (length B)) (int (length B) + int (length S)) prefix"
    and B: "B = [] \<or> last B = CHR ''\<newline>''"
    and A: "A = [] \<or> hd A = CHR ''\<newline>''"
    and h: "B = [] \<longrightarrow> S @ A = [] \<or> hd (S @ A) \<noteq> CHR ''\<newline>''"
    by (rule toggleBlockPrefix_region)
  show ?thesis
    unfolding r toggleBlockPrefix_at_region [OF B A h] by (simp add: wellFormed_def)
qed

lemma toggleWrap_wellFormed:
  assumes "token \<noteq> []" and "0 \<le> start" and "start \<le> end" and "end \<le> int (length text)"
  shows "wellFormed (toggleWrap text start end token)"
proof -
  from assms(2-4) obtain B S A where d: "text = B @ S @ A" "start = int (length B)"
    "end = int (length B) + int (length S)"
    by (rule decompose)
  have a: "startsWith A token \<Longrightarrow> length token \<le> length A"
    by (rule startsWith_length)
  show ?thesis
    unfolding d toggleWrap_parts using assms(1) a
    by (auto simp: wellFormed_def slice_drop_last slice_from_nat slice_strip_both endsWith_def)
qed

lemma toggleWrapAsymmetric_parts:
  "toggleWrapAsymmetric (B @ S @ A) (int (length B)) (int (length B) + int (length S)) st et =
     (if endsWith B st \<and> startsWith A et then
        \<lparr>res_text = slice B 0 (- int (length st)) @ S @ slice_from A (int (length et)),
         selection = \<lparr>sel_start = int (length B) - int (length st),
                      sel_end = int (length B) + int (length S) - int (length st)\<rparr>\<rparr>
      else
        \<lparr>res_text = B @ st @ S @ et @ A,
         selection = \<lparr>sel_start = int (length B) + int (length st),
                      sel_end = int (length B) + int (length S) + int (length st)\<rparr>\<rparr>)"
  by (simp add: toggleWrapAsymmetric_def Let_def parts_before parts_selected parts_after)

lemma toggleWrapAsymmetric_wellFormed:
  assumes "startToken \<noteq> []" and "0 \<le> start" and "start \<le> end"
    and "end \<le> int (length text)"
  shows "wellFormed (toggleWrapAsymmetric text start end startToken endToken)"
proof -
  from assms(2-4) obtain B S A where d: "text = B @ S @ A" "start = int (length B)"
    "end = int (length B) + int (length S)"
    by (rule decompose)
  have a: "startsWith A endToken \<Longrightarrow> length endToken \<le> length A"
    by (rule startsWith_length)
  show ?thesis
    unfolding d toggleWrapAsymmetric_parts using assms(1) a
    by (auto simp: wellFormed_def slice_drop_last slice_from_nat endsWith_def)
qed

lemma insertAt_wellFormed:
  assumes "0 \<le> position" and "position \<le> int (length text)"
  shows "wellFormed (insertAt text position toInsert)"
  using assms by (simp add: insertAt_def wellFormed_def slice_prefix slice_from_suffix)

lemma toggleCodeBlock_wellFormed:
  assumes "0 \<le> start" and "start \<le> end" and "end \<le> int (length text)"
  shows "wellFormed (toggleCodeBlock text start end language)"
proof -
  from assms obtain B S A where d: "text = B @ S @ A" "start = int (length B)"
    "end = int (length B) + int (length S)"
    by (rule decompose)
  show ?thesis
    unfolding d
    by (simp add: toggleCodeBlock_def Let_def wellFormed_def parts_before parts_selected
        parts_after split: unit.split)
qed

lemma insertMaskedLink_wellFormed:
  assumes "0 \<le> start" and "start \<le> end" and "end \<le> int (length text)"
  shows "wellFormed (insertMaskedLink text start end url)"
proof -
  from assms obtain B S A where d: "text = B @ S @ A" "start = int (length B)"
    "end = int (length B) + int (length S)"
    by (rule decompose)
  show ?thesis
    unfolding d
    by (simp add: insertMaskedLink_def Let_def wellFormed_def parts_before parts_selected
        parts_after)
qed

text \<open>
  Claim C5 (every function of the engine returns a selection with
  \<open>start \<le> end \<le> length(text)\<close>). With the caret at 0 of a text that starts with a line
  feed, \<open>lastIndexOf\<close> from the position \<open>-1\<close> finds the line feed at index 0 (a negative position
  is clamped to 0), so \<open>toggleBlockPrefix\<close> takes the line to start at 1 and to end at 0:
  it returns the selection \<open>{1, 0}\<close> and a text with the line feed doubled. With the
  empty token \<open>toggleWrap\<close>, and with the empty opening token \<open>toggleWrapAsymmetric\<close>,
  delete what stands before the selection and leave the selection where it was, past
  the end of the shorter text.
\<close>

theorem engine_selection_out_of_bounds:
  "toggleBlockPrefix ''\<newline>abc'' 0 0 ''>''
     = \<lparr>res_text = ''\<newline>\<newline>abc'', selection = \<lparr>sel_start = 1, sel_end = 0\<rparr>\<rparr>
   \<and> \<not> wellFormed (toggleBlockPrefix ''\<newline>abc'' 0 0 ''>'')
   \<and> toggleWrap ''ab'' 1 2 ''''
     = \<lparr>res_text = ''b'', selection = \<lparr>sel_start = 1, sel_end = 2\<rparr>\<rparr>
   \<and> \<not> wellFormed (toggleWrap ''ab'' 1 2 '''')
   \<and> \<not> wellFormed (toggleWrapAsymmetric ''ab)'' 1 2 '''' '')'')"
  by (simp add: toggleBlockPrefix_def toggleWrap_def toggleWrapAsymmetric_def wellFormed_def
      lastIndexOf_def indexOf_def slice_def slice_from_def startsWith_def endsWith_def
      trim_def Let_def)

section \<open>insertMaskedLink\<close>

lemma insertMaskedLink_parts:
  "insertMaskedLink (B @ S @ A) (int (length B)) (int (length B) + int (length S)) url =
     (let selected = (if S = [] then ''link text'' else S);
          link = ''['' @ selected @ '']('' @ url @ '')''
      in \<lparr>res_text = B @ link @ A,
          selection =
            \<lparr>sel_start = (if url = ''url'' then int (length B) + int (length selected) + 3
                          else int (length B)),
             sel_end = (if url = ''url''
                        then int (length B) + int (length selected) + 3 + int (length url)
                        else int (length B) + int (length link))\<rparr>\<rparr>)"
  by (simp add: insertMaskedLink_def Let_def parts_before parts_selected parts_after)

text \<open>
  Claim C6, as amended. For a selection inside the bounds of the text,
  \<open>insertMaskedLink\<close> puts \<open>[selected](url)\<close> in the place of the selection, where
  \<open>selected\<close> is the selected text, or \<open>link text\<close> when nothing is selected. When the
  url is the placeholder \<open>url\<close> the selection returned covers exactly the url inside
  the link; otherwise it covers exactly the whole link, from \<open>start\<close> to
  \<open>start + length(link)\<close>.
\<close>

theorem insertMaskedLink_selection:
  assumes "0 \<le> start" and "start \<le> end" and "end \<le> int (length text)"
  shows "let selected = (if substring text (nat start) (nat end) = [] then ''link text''
                         else substring text (nat start) (nat end));
             link = ''['' @ selected @ '']('' @ url @ '')'';
             r = insertMaskedLink text start end url
         in res_text r = take (nat start) text @ link @ drop (nat end) text
            \<and> (if url = ''url''
               then sel_start (selection r) = start + 1 + int (length selected) + 2
                    \<and> sel_end (selection r) = sel_start (selection r) + int (length url)
                    \<and> slice (res_text r) (sel_start (selection r)) (sel_end (selection r)) = url
               else sel_start (selection r) = start
                    \<and> sel_end (selection r) = start + int (length link)
                    \<and> slice (res_text r) (sel_start (selection r)) (sel_end (selection r)) = link)"
proof -
  from assms obtain B S A where d: "text = B @ S @ A" "start = int (length B)"
    "end = int (length B) + int (length S)"
    by (rule decompose)
  define selected where "selected = (if S = [] then ''link text'' else S)"
  define link where "link = ''['' @ selected @ '']('' @ url @ '')''"
  have sub: "substring text (nat start) (nat end) = S"
    by (simp add: d substring_def)
  have r: "insertMaskedLink text start end url
      = \<lparr>res_text = B @ link @ A,
         selection =
           \<lparr>sel_start = (if url = ''url'' then int (length B) + int (length selected) + 3
                         else int (length B)),
            sel_end = (if url = ''url''
                       then int (length B) + int (length selected) + 3 + int (length url)
                       else int (length B) + int (length link))\<rparr>\<rparr>"
    unfolding d insertMaskedLink_parts by (simp add: Let_def selected_def link_def)
  have whole: "slice (B @ link @ A) (int (length B)) (int (length B) + int (length link)) = link"
    by (rule parts_selected)
  have "slice ((B @ ''['' @ selected @ '']('') @ url @ ('')'' @ A))
          (int (length (B @ ''['' @ selected @ '']('')))
          (int (length (B @ ''['' @ selected @ '']('')) + int (length url)) = url"
    by (rule parts_selected)
  then have inner: "slice (B @ link @ A) (int (length B) + int (length selected) + 3)
      (int (length B) + int (length selected) + 3 + int (length url)) = url"
    by (simp add: link_def add.commute add.left_commute)
  show ?thesis
  proof (cases "url = ''url''")
    case True
    with inner have "slice (B @ link @ A) (int (length B) + int (length selected) + 3)
        (int (length B) + int (length selected) + 3 + 3) = ''url''"
      by simp
    with True show ?thesis
      unfolding sub Let_def r selected_def[symmetric] link_def[symmetric]
      by (simp add: d)
  next
    case False
    with whole show ?thesis
      unfolding sub Let_def r selected_def[symmetric] link_def[symmetric]
      by (simp add: d)
  qed
qed

theorem insertMaskedLink_selection_witness:
  "insertMaskedLink ''ab'' 1 1 ''url''
     = \<lparr>res_text = ''a[link text](url)b'', selection = \<lparr>sel_start = 13, sel_end = 16\<rparr>\<rparr>
   \<and> insertMaskedLink ''ab'' 0 2 ''x''
     = \<lparr>res_text = ''[ab](x)'', selection = \<lparr>sel_start = 0, sel_end = 7\<rparr>\<rparr>"
  using insertMaskedLink_selection [of 1 1 "''ab''" "''url''"]
    insertMaskedLink_selection [of 0 2 "''ab''" "''x''"]
  by (simp add: insertMaskedLink_def slice_def slice_from_def substring_def Let_def)

text \<open>
  The claim as it stands has a caret right after the link when the url is not the
  placeholder. On \<open>ab\<close>, all of it selected, with the url \<open>x\<close> the link is \<open>[ab](x)\<close>
  and the selection returned is \<open>{0, 7}\<close>, the whole link, not the caret \<open>{7, 7}\<close>.
\<close>

theorem insertMaskedLink_caret_counterexample:
  "selection (insertMaskedLink ''ab'' 0 2 ''x'') = \<lparr>sel_start = 0, sel_end = 7\<rparr>
   \<and> selection (insertMaskedLink ''ab'' 0 2 ''x'')
      \<noteq> \<lparr>sel_start = int (length ''[ab](x)''), sel_end = int (length ''[ab](x)'')\<rparr>
   \<and> sel_start (selection (insertMaskedLink ''ab'' 0 2 ''x''))
      \<noteq> sel_end (selection (insertMaskedLink ''ab'' 0 2 ''x''))"
  by (simp add: insertMaskedLink_def slice_def slice_from_def Let_def)

section \<open>toggleWrap with the empty token\<close>

text \<open>
  Claim C10. With the empty token \<open>toggleWrap\<close> takes the unwrap branch whatever the
  text and the selection are (the empty string ends the text before the selection and
  starts the text after it), and since \<open>before.slice(0, -0)\<close> is the empty string the
  result is the text from \<open>start\<close> on, everything before \<open>start\<close> deleted; the selection
  stays at \<open>{start, end}\<close>. The text changes whenever \<open>0 < start\<close>.
\<close>

theorem toggleWrap_empty_token:
  assumes "0 \<le> start" and "start \<le> end" and "end \<le> int (length text)"
  shows "endsWith (slice text 0 start) [] \<and> startsWith (slice_from text end) []
         \<and> toggleWrap text start end []
             = \<lparr>res_text = drop (nat start) text,
                selection = \<lparr>sel_start = start, sel_end = end\<rparr>\<rparr>
         \<and> (0 < start \<longrightarrow> res_text (toggleWrap text start end []) \<noteq> text)"
proof -
  have sel: "slice text start end = take (nat end - nat start) (drop (nat start) text)"
    using assms by (rule slice_middle)
  have aft: "slice_from text end = drop (nat end) text"
    using assms by (simp add: slice_from_suffix)
  have "take (nat end - nat start) (drop (nat start) text) @ drop (nat end) text
        = drop (nat start) text"
    using assms by (simp add: take_drop_glue)
  then have eq: "toggleWrap text start end []
      = \<lparr>res_text = drop (nat start) text,
         selection = \<lparr>sel_start = start, sel_end = end\<rparr>\<rparr>"
    by (simp add: toggleWrap_def Let_def endsWith_empty startsWith_empty sel aft
        slice_zero_zero slice_from_zero)
  have "0 < start \<longrightarrow> length (drop (nat start) text) \<noteq> length text"
    using assms by auto
  then have "0 < start \<longrightarrow> drop (nat start) text \<noteq> text"
    by metis
  with eq show ?thesis
    by (simp add: endsWith_empty startsWith_empty)
qed

theorem toggleWrap_empty_token_witness:
  "toggleWrap ''hello world'' 6 11 ''''
     = \<lparr>res_text = ''world'', selection = \<lparr>sel_start = 6, sel_end = 11\<rparr>\<rparr>
   \<and> res_text (toggleWrap ''hello world'' 6 11 '''') \<noteq> ''hello world''"
  using toggleWrap_empty_token [of 6 11 "''hello world''"] by simp

section \<open>sanitizeUrl is the algorithm of the specification\<close>

lemma upper_code:
  "(of_char (toUpperAscii c) :: nat)
   = (if 97 \<le> (of_char c :: nat) \<and> (of_char c :: nat) \<le> 122 then of_char c - 32 else of_char c)"
proof -
  have "(of_char c :: nat) - 32 < 256"
    using nat_of_char_less_256 [of c] by arith
  then show ?thesis by (simp add: toUpperAscii_def)
qed

lemma lower_code:
  "(of_char (toLowerAscii c) :: nat)
   = (if 65 \<le> (of_char c :: nat) \<and> (of_char c :: nat) \<le> 90 then of_char c + 32 else of_char c)"
proof -
  have "(of_char c :: nat) < 256" by simp
  then show ?thesis by (simp add: toLowerAscii_def)
qed

lemma ci_char:
  assumes "\<not> (65 \<le> (of_char c :: nat) \<and> (of_char c :: nat) \<le> 90)"
  shows "toUpperAscii x = toUpperAscii c \<longleftrightarrow> toLowerAscii x = c"
proof -
  define n m where "n = (of_char x :: nat)" and "m = (of_char c :: nat)"
  have arith: "(if 97 \<le> n \<and> n \<le> 122 then n - 32 else n)
         = (if 97 \<le> m \<and> m \<le> 122 then m - 32 else m)
       \<longleftrightarrow> (if 65 \<le> n \<and> n \<le> 90 then n + 32 else n) = m"
    using assms unfolding m_def [symmetric] by auto
  have "toUpperAscii x = toUpperAscii c
        \<longleftrightarrow> (of_char (toUpperAscii x) :: nat) = of_char (toUpperAscii c)"
    by simp
  also have "\<dots> \<longleftrightarrow> (of_char (toLowerAscii x) :: nat) = of_char c"
    unfolding upper_code lower_code n_def [symmetric] m_def [symmetric] by (rule arith)
  also have "\<dots> \<longleftrightarrow> toLowerAscii x = c"
    by simp
  finally show ?thesis .
qed

lemma matchPrefix_lit:
  "matchPrefix True (lit p) s = (if ciPrefix p s then [drop (length p) s] else [])"
proof (induction p arbitrary: s)
  case Nil
  then show ?case by (simp add: ciPrefix_def)
next
  case (Cons c p)
  show ?case
  proof (cases s)
    case Nil
    then show ?thesis by (simp add: ciPrefix_def)
  next
    case s: (Cons x xs)
    show ?thesis
    proof (cases "toUpperAscii x = toUpperAscii c")
      case True
      then have "matchPrefix True (lit (c # p)) s = matchPrefix True (lit p) xs"
        by (simp add: s canonicalize_def)
      also have "\<dots> = (if ciPrefix p xs then [drop (length p) xs] else [])"
        by (rule Cons.IH)
      also have "\<dots> = (if ciPrefix (c # p) s then [drop (length (c # p)) s] else [])"
        using True by (simp add: s ciPrefix_def)
      finally show ?thesis .
    next
      case False
      then show ?thesis
        by (simp add: s ciPrefix_def canonicalize_def)
    qed
  qed
qed

lemma ciPrefix_lower:
  assumes "list_all (\<lambda>c. \<not> (65 \<le> (of_char c :: nat) \<and> (of_char c :: nat) \<le> 90)) p"
  shows "ciPrefix p s \<longleftrightarrow> hasScheme p s"
  using assms
proof (induction p arbitrary: s)
  case Nil
  then show ?case by (simp add: ciPrefix_def hasScheme_def)
next
  case (Cons c p)
  show ?case
  proof (cases s)
    case Nil
    then show ?thesis by (simp add: ciPrefix_def hasScheme_def)
  next
    case s: (Cons x xs)
    from Cons.prems have c: "\<not> (65 \<le> (of_char c :: nat) \<and> (of_char c :: nat) \<le> 90)"
      and p: "list_all (\<lambda>c. \<not> (65 \<le> (of_char c :: nat) \<and> (of_char c :: nat) \<le> 90)) p"
      by simp_all
    have "ciPrefix (c # p) s \<longleftrightarrow> toUpperAscii x = toUpperAscii c \<and> ciPrefix p xs"
      by (auto simp: s ciPrefix_def)
    also have "\<dots> \<longleftrightarrow> toLowerAscii x = c \<and> hasScheme p xs"
      using ci_char [OF c, of x] Cons.IH [OF p, of xs] by simp
    also have "\<dots> \<longleftrightarrow> hasScheme (c # p) s"
      by (auto simp: s hasScheme_def)
    finally show ?thesis .
  qed
qed

lemma ciPrefix_snoc:
  "ciPrefix (p @ [c]) s
   \<longleftrightarrow> ciPrefix p s \<and> matchPrefix True (Lit c) (drop (length p) s) \<noteq> []"
proof (induction p arbitrary: s)
  case Nil
  then show ?case
    by (cases s) (auto simp: ciPrefix_def canonicalize_def)
next
  case (Cons d p)
  show ?case
  proof (cases s)
    case Nil
    then show ?thesis by (simp add: ciPrefix_def)
  next
    case s: (Cons x xs)
    have "ciPrefix ((d # p) @ [c]) s
          \<longleftrightarrow> toUpperAscii x = toUpperAscii d \<and> ciPrefix (p @ [c]) xs"
      by (auto simp: s ciPrefix_def)
    also have "\<dots> \<longleftrightarrow> toUpperAscii x = toUpperAscii d \<and> ciPrefix p xs
                  \<and> matchPrefix True (Lit c) (drop (length p) xs) \<noteq> []"
      using Cons.IH [of xs] by simp
    also have "\<dots> \<longleftrightarrow> ciPrefix (d # p) s
                  \<and> matchPrefix True (Lit c) (drop (length (d # p)) s) \<noteq> []"
      by (auto simp: s ciPrefix_def)
    finally show ?thesis .
  qed
qed

lemma seq_lit_colon:
  "concat (map (matchPrefix True (Lit c)) (matchPrefix True (lit p) s)) \<noteq> []
   \<longleftrightarrow> ciPrefix (p @ [c]) s"
  by (simp add: matchPrefix_lit ciPrefix_snoc)

lemma dangerous_test:
  "regexTest True DANGEROUS_URI_REGEXP s
   \<longleftrightarrow> hasScheme ''javascript:'' s \<or> hasScheme ''data:'' s \<or> hasScheme ''vbscript:'' s"
proof -
  have "regexTest True DANGEROUS_URI_REGEXP s
        \<longleftrightarrow> ciPrefix (''javascript'' @ '':'') s \<or> ciPrefix (''data'' @ '':'') s
            \<or> ciPrefix (''vbscript'' @ '':'') s"
    unfolding regexTest_def DANGEROUS_URI_REGEXP_def matchPrefix.simps(3,4) map_append
      concat_append append_is_Nil_conv de_Morgan_conj seq_lit_colon
    by simp
  also have "\<dots> \<longleftrightarrow> hasScheme ''javascript:'' s \<or> hasScheme ''data:'' s
                  \<or> hasScheme ''vbscript:'' s"
    by (simp add: ciPrefix_lower)
  finally show ?thesis .
qed


lemma lit_step:
  "matchPrefix True (Lit c) t = (if matchPrefix True (Lit c) t \<noteq> [] then [tl t] else [])"
  by (cases t) auto

lemma opt_then_colon:
  "concat (map (matchPrefix True (Lit d)) (matchPrefix True (Opt (Lit c)) t)) \<noteq> []
   \<longleftrightarrow> (matchPrefix True (Lit c) t \<noteq> [] \<and> matchPrefix True (Lit d) (tl t) \<noteq> [])
       \<or> matchPrefix True (Lit d) t \<noteq> []"
proof -
  have "concat (map (matchPrefix True (Lit d)) (matchPrefix True (Opt (Lit c)) t))
        = concat (map (matchPrefix True (Lit d)) (matchPrefix True (Lit c) t))
          @ matchPrefix True (Lit d) t"
    by (simp del: matchPrefix.simps(2))
  also have "concat (map (matchPrefix True (Lit d)) (matchPrefix True (Lit c) t))
        = (if matchPrefix True (Lit c) t \<noteq> [] then matchPrefix True (Lit d) (tl t) else [])"
    by (subst lit_step) (simp del: matchPrefix.simps(2))
  finally show ?thesis
    by (auto simp del: matchPrefix.simps)
qed

lemma ciPrefix_snoc2:
  "ciPrefix (p @ [c, d]) s
   \<longleftrightarrow> ciPrefix p s \<and> matchPrefix True (Lit c) (drop (length p) s) \<noteq> []
       \<and> matchPrefix True (Lit d) (tl (drop (length p) s)) \<noteq> []"
proof -
  have "ciPrefix ((p @ [c]) @ [d]) s
        \<longleftrightarrow> ciPrefix (p @ [c]) s \<and> matchPrefix True (Lit d) (drop (length (p @ [c])) s) \<noteq> []"
    by (rule ciPrefix_snoc)
  then show ?thesis
    by (simp add: ciPrefix_snoc drop_Suc tl_drop)
qed

lemma allowed_test:
  "regexTest True ALLOWED_URI_REGEXP s
   \<longleftrightarrow> hasScheme ''http:'' s \<or> hasScheme ''https:'' s \<or> hasScheme ''mailto:'' s"
proof -
  have "regexTest True ALLOWED_URI_REGEXP s
        \<longleftrightarrow> concat (map (matchPrefix True (Lit CHR '':''))
                     (concat (map (matchPrefix True (Opt (Lit CHR ''s'')))
                                (matchPrefix True (lit ''http'') s)))) \<noteq> []
            \<or> concat (map (matchPrefix True (Lit CHR '':''))
                         (matchPrefix True (lit ''mailto'') s)) \<noteq> []"
    by (simp add: regexTest_def ALLOWED_URI_REGEXP_def del: matchPrefix.simps(2,5) lit.simps)
  also have "concat (map (matchPrefix True (Lit CHR '':''))
                     (concat (map (matchPrefix True (Opt (Lit CHR ''s'')))
                                (matchPrefix True (lit ''http'') s)))) \<noteq> []
        \<longleftrightarrow> ciPrefix (''http'' @ '':'') s \<or> ciPrefix (''http'' @ ''s:'') s"
    unfolding matchPrefix_lit
    using opt_then_colon [of "CHR '':''" "CHR ''s''" "drop (length ''http'') s"]
      ciPrefix_snoc [of "''http''" "CHR '':''" s]
      ciPrefix_snoc2 [of "''http''" "CHR ''s''" "CHR '':''" s]
    by (cases "ciPrefix ''http'' s") (simp_all del: matchPrefix.simps(2,5), blast)
  also have "concat (map (matchPrefix True (Lit CHR '':''))
                         (matchPrefix True (lit ''mailto'') s)) \<noteq> []
        \<longleftrightarrow> ciPrefix (''mailto'' @ '':'') s"
    by (rule seq_lit_colon)
  finally have "regexTest True ALLOWED_URI_REGEXP s
        \<longleftrightarrow> ciPrefix ''http:'' s \<or> ciPrefix ''https:'' s \<or> ciPrefix ''mailto:'' s"
    by (simp add: disj_assoc)
  then show ?thesis
    by (simp add: ciPrefix_lower)
qed

lemma str_includes_iff: "str_includes s sub \<longleftrightarrow> (\<exists>a b. s = a @ sub @ b)"
proof (induction s)
  case Nil
  then show ?case by auto
next
  case (Cons x xs)
  have "startsWith (x # xs) sub \<longleftrightarrow> (\<exists>b. x # xs = sub @ b)"
    by (metis startsWith_def append_eq_conv_conj append_take_drop_id)
  moreover have "(\<exists>a b. x # xs = a @ sub @ b)
      \<longleftrightarrow> (\<exists>b. x # xs = sub @ b) \<or> (\<exists>a b. xs = a @ sub @ b)"
  proof
    assume "\<exists>a b. x # xs = a @ sub @ b"
    then obtain a b where ab: "x # xs = a @ sub @ b" by blast
    show "(\<exists>b. x # xs = sub @ b) \<or> (\<exists>a b. xs = a @ sub @ b)"
    proof (cases a)
      case Nil
      with ab show ?thesis by auto
    next
      case (Cons y ys)
      with ab have "xs = ys @ sub @ b" by simp
      then show ?thesis by blast
    qed
  next
    assume "(\<exists>b. x # xs = sub @ b) \<or> (\<exists>a b. xs = a @ sub @ b)"
    then show "\<exists>a b. x # xs = a @ sub @ b"
    proof
      assume "\<exists>b. x # xs = sub @ b"
      then obtain b where "x # xs = [] @ sub @ b" by auto
      then show ?thesis by blast
    next
      assume "\<exists>a b. xs = a @ sub @ b"
      then obtain a b where "x # xs = (x # a) @ sub @ b" by auto
      then show ?thesis by blast
    qed
  qed
  ultimately show ?case
    using Cons.IH by simp
qed

text \<open>
  Claim C1. On every URL \<open>sanitizeUrl\<close> is the algorithm of the specification on the
  trimmed input: empty for the schemes \<open>javascript:\<close>, \<open>data:\<close> and \<open>vbscript:\<close> in any
  case of the letters; else the trimmed input itself for \<open>http:\<close>, \<open>https:\<close> and
  \<open>mailto:\<close> in any case of the letters and for a first character \<open>/\<close> or \<open>#\<close>; else
  the trimmed input after \<open>https://\<close> when it holds no \<open>://\<close>; else empty. The three
  examples of the specification come out as it says.
\<close>

theorem sanitizeUrl_algorithm:
  "sanitizeUrl url = sanitizeUrl_spec url
   \<and> sanitizeUrl ''javascript:alert(1)'' = []
   \<and> sanitizeUrl ''example.com'' = ''https://example.com''
   \<and> sanitizeUrl ''/local'' = ''/local''"
proof -
  have "sanitizeUrl url = sanitizeUrl_spec url"
    by (simp add: sanitizeUrl_def sanitizeUrl_spec_def dangerous_test allowed_test
        str_includes_iff startsWith_def Let_def)
  moreover have "sanitizeUrl ''javascript:alert(1)'' = []"
    by code_simp
  moreover have "sanitizeUrl ''example.com'' = ''https://example.com''"
    by code_simp
  moreover have "sanitizeUrl ''/local'' = ''/local''"
    by code_simp
  ultimately show ?thesis by simp
qed

section \<open>The ladder of relative time\<close>

lemma unitLoop_from_start:
  "unitLoop 0 a (a, ''seconds'') =
     (if a < 60 then (a, if a = 1 then ''second'' else ''seconds'')
      else if a < 3600 then (a div 60, if a div 60 = 1 then ''minute'' else ''minutes'')
      else if a < 86400 then (a div 3600, if a div 3600 = 1 then ''hour'' else ''hours'')
      else if a < 2592000 then (a div 86400, if a div 86400 = 1 then ''day'' else ''days'')
      else if a < 31536000
        then (a div 2592000, if a div 2592000 = 1 then ''month'' else ''months'')
      else (a div 31536000, if a div 31536000 = 1 then ''year'' else ''years''))"
  by (simp add: unitLoop.simps units_def Let_def)

lemma rung_cases:
  obtains "a < 60" | "60 \<le> a" "a < 3600" | "3600 \<le> a" "a < 86400"
  | "86400 \<le> a" "a < 2592000" | "2592000 \<le> a" "a < 31536000" | "31536000 \<le> (a :: int)"
  by linarith

lemma unitLoop_rung:
  "unitLoop 0 a (a, ''seconds'')
   = (a div fst (rung a),
      if a div fst (rung a) = 1 then snd (rung a) else snd (rung a) @ ''s'')"
  by (cases a rule: rung_cases) (simp_all add: unitLoop_from_start rung_def)

text \<open>
  The function of src/lib/markdown.ts is the ladder of the specification for every epoch
  and every reading of the clock, \<open>now\<close> included; the function of src/lib/time.ts is the
  same ladder except where the epoch is the present second.
\<close>

lemma formatRelativeTime_ladder:
  "formatRelativeTime dateNow epoch = relativeTime_spec (dateNow div 1000) epoch"
  unfolding formatRelativeTime_def relativeTime_spec_def Let_def unitLoop_rung
  by (simp only: prod.case)

lemma time_formatRelativeTime_ladder:
  "time_formatRelativeTime dateNow epoch
   = (if epoch = dateNow div 1000 then ''in 0 seconds''
      else relativeTime_spec (dateNow div 1000) epoch)"
proof (cases "epoch = dateNow div 1000")
  case True
  then show ?thesis
    by (simp add: time_formatRelativeTime_def numberToString_def decimal.simps [of 0]
        digitChar_def)
next
  case False
  define a where "a = \<bar>epoch - dateNow div 1000\<bar>"
  from False have d: "epoch - dateNow div 1000 < 0 \<or> 0 < epoch - dateNow div 1000"
    by auto
  have "time_formatRelativeTime dateNow epoch = relativeTime_spec (dateNow div 1000) epoch"
    unfolding time_formatRelativeTime_def relativeTime_spec_def Let_def a_def [symmetric]
    using False d by (cases a rule: rung_cases) (auto simp: rung_def)
  with False show ?thesis by simp
qed

text \<open>
  Claim C2 (style R gives \<open>now\<close> when the difference is 0). For the epoch 1700000000 at
  the clock 1700000000 the function of src/lib/time.ts, which the preview of the
  timestamp builder calls for style R, returns \<open>in 0 seconds\<close>: its first branch has no
  case for a difference of 0. The function of src/lib/markdown.ts, which the parser
  calls, returns \<open>now\<close>, as the specification says.
\<close>

theorem relative_time_now_diverges:
  "time_formatRelativeTime 1700000000000 1700000000 = ''in 0 seconds''
   \<and> formatRelativeTime 1700000000000 1700000000 = ''now''
   \<and> relativeTime_spec 1700000000 1700000000 = ''now''"
  by (simp add: time_formatRelativeTime_ladder formatRelativeTime_ladder relativeTime_spec_def)

lemma relative_time_scenario:
  "formatRelativeTime 1700000000000 1700000000 = ''now''
   \<and> formatRelativeTime 1699999940000 1700000000 = ''in 1 minute''
   \<and> time_formatRelativeTime 1699999940000 1700000000 = ''in 1 minute''"
  by code_simp

section \<open>formatTimestamp and the timestamp rule\<close>




lemma attrs_after_sets:
  "attrs (attrSet (attrSet (attrSet (t\<lparr>attrs := []\<rparr>) ''class'' a) ''data-epoch'' b)
            ''data-style'' c)
   = [(''class'', a), (''data-epoch'', b), (''data-style'', c)]"
  by (simp add: attrSet_def)




text \<open>
  What \<open>parseInt\<close> accepts is more than a run of digits: \<open><t:12abc>\<close> matches, with the
  epoch 12.
\<close>

lemma timestamp_rule_lenient:
  "fst (discord_timestamp host \<lparr>src = ''<t:12abc>'', pos = 0, posMax = 9, tokens = []\<rparr> True)"
  by (simp add: discord_timestamp_def indexOf_def slice_def parseInt_def isDigit_def
      isWhiteSpace_def startsWith_def Let_def)

end
